theory Spec2Isabelle
  imports Complex_Main
begin

section \<open>JavaScript numbers\<close>

text \<open>
  A JavaScript number is modelled as an exact real or one of the three IEEE special
  values. Finite arithmetic is exact (the rounding of doubles and of the 32-bit
  cells of a \<^verbatim>\<open>Float32Array\<close> is not modelled); the special values follow IEEE 754:
  they are what a division by zero and the initial values of \<^verbatim>\<open>computeBounds\<close>
  produce. Zero is unsigned and behaves as \<^verbatim>\<open>+0\<close>: every divisor of the program
  that can be zero is a difference or a sum, which is \<^verbatim>\<open>+0\<close> when it is zero.
\<close>

datatype jsnum = NaN | NegInf | Fin real | PosInf

fun js_neg :: "jsnum \<Rightarrow> jsnum" where
  "js_neg NaN = NaN"
| "js_neg NegInf = PosInf"
| "js_neg PosInf = NegInf"
| "js_neg (Fin a) = Fin (- a)"

fun js_add :: "jsnum \<Rightarrow> jsnum \<Rightarrow> jsnum" where
  "js_add (Fin a) (Fin b) = Fin (a + b)"
| "js_add NaN _ = NaN"
| "js_add _ NaN = NaN"
| "js_add PosInf NegInf = NaN"
| "js_add NegInf PosInf = NaN"
| "js_add PosInf _ = PosInf"
| "js_add _ PosInf = PosInf"
| "js_add NegInf _ = NegInf"
| "js_add _ NegInf = NegInf"

definition js_sub :: "jsnum \<Rightarrow> jsnum \<Rightarrow> jsnum" where
  "js_sub a b = js_add a (js_neg b)"

fun js_mul :: "jsnum \<Rightarrow> jsnum \<Rightarrow> jsnum" where
  "js_mul (Fin a) (Fin b) = Fin (a * b)"
| "js_mul NaN _ = NaN"
| "js_mul _ NaN = NaN"
| "js_mul (Fin a) b = (if a = 0 then NaN else if 0 < a then b else js_neg b)"
| "js_mul a (Fin b) = (if b = 0 then NaN else if 0 < b then a else js_neg a)"
| "js_mul a b = (if a = b then PosInf else NegInf)"

fun js_div :: "jsnum \<Rightarrow> jsnum \<Rightarrow> jsnum" where
  "js_div (Fin a) (Fin b) =
     (if b = 0 then (if a = 0 then NaN else if 0 < a then PosInf else NegInf)
      else Fin (a / b))"
| "js_div NaN _ = NaN"
| "js_div _ NaN = NaN"
| "js_div (Fin a) _ = Fin 0"
| "js_div a (Fin b) = (if 0 \<le> b then a else js_neg a)"
| "js_div _ _ = NaN"

text \<open>Comparisons: every comparison with \<^verbatim>\<open>NaN\<close> is false.\<close>

fun js_lt :: "jsnum \<Rightarrow> jsnum \<Rightarrow> bool" where
  "js_lt (Fin a) (Fin b) = (a < b)"
| "js_lt NaN _ = False"
| "js_lt _ NaN = False"
| "js_lt PosInf _ = False"
| "js_lt _ NegInf = False"
| "js_lt _ _ = True"

definition js_gt :: "jsnum \<Rightarrow> jsnum \<Rightarrow> bool" where
  "js_gt a b = js_lt b a"

fun js_le :: "jsnum \<Rightarrow> jsnum \<Rightarrow> bool" where
  "js_le (Fin a) (Fin b) = (a \<le> b)"
| "js_le NaN _ = False"
| "js_le _ NaN = False"
| "js_le NegInf _ = True"
| "js_le _ PosInf = True"
| "js_le _ _ = False"

definition js_ge :: "jsnum \<Rightarrow> jsnum \<Rightarrow> bool" where
  "js_ge a b = js_le b a"

text \<open>\<^verbatim>\<open>Math.floor\<close>, \<^verbatim>\<open>Math.round\<close> (halves go up) and \<^verbatim>\<open>Math.exp\<close>.\<close>

fun js_floor :: "jsnum \<Rightarrow> jsnum" where
  "js_floor (Fin a) = Fin (of_int \<lfloor>a\<rfloor>)"
| "js_floor a = a"

fun js_round :: "jsnum \<Rightarrow> jsnum" where
  "js_round (Fin a) = Fin (of_int \<lfloor>a + 1 / 2\<rfloor>)"
| "js_round a = a"

fun js_exp :: "jsnum \<Rightarrow> jsnum" where
  "js_exp (Fin a) = Fin (exp a)"
| "js_exp NaN = NaN"
| "js_exp NegInf = Fin 0"
| "js_exp PosInf = PosInf"

text \<open>
  A typed array: a read outside the array gives \<^verbatim>\<open>undefined\<close>, which is \<^verbatim>\<open>NaN\<close>
  in arithmetic, and a write outside the array is ignored.
\<close>

definition ta_get :: "jsnum list \<Rightarrow> int \<Rightarrow> jsnum" where
  "ta_get xs i = (if 0 \<le> i \<and> i < int (length xs) then xs ! nat i else NaN)"

definition ta_set :: "'a list \<Rightarrow> int \<Rightarrow> 'a \<Rightarrow> 'a list" where
  "ta_set xs i v = (if 0 \<le> i \<and> i < int (length xs) then xs[nat i := v] else xs)"

section \<open>The colour parser\<close>

text \<open>
  A JavaScript string is a list of UTF-16 code units, written as their numbers.
\<close>

type_synonym jsstring = "nat list"

definition str :: "string \<Rightarrow> jsstring" where
  "str s = map of_char s"

record rgb =
  r :: nat
  g :: nat
  b :: nat

text \<open>
  The class \<^verbatim>\<open>[a-f\d]\<close> under the flag \<^verbatim>\<open>i\<close>: a digit, or one of the letters
  a to f in either case.
\<close>

definition hexClass :: "nat \<Rightarrow> bool" where
  "hexClass c = ((97 \<le> c \<and> c \<le> 102) \<or> (65 \<le> c \<and> c \<le> 70) \<or> (48 \<le> c \<and> c \<le> 57))"

text \<open>One group \<^verbatim>\<open>([a-f\d]{2})\<close>: the capture and the rest of the input.\<close>

fun matchGroup :: "jsstring \<Rightarrow> (jsstring \<times> jsstring) option" where
  "matchGroup (c # d # rest) =
     (if hexClass c \<and> hexClass d then Some ([c, d], rest) else None)"
| "matchGroup _ = None"

text \<open>The three groups followed by the end of the input.\<close>

definition matchGroups :: "jsstring \<Rightarrow> (jsstring \<times> jsstring \<times> jsstring) option" where
  "matchGroups s =
     (case matchGroup s of None \<Rightarrow> None
      | Some (h1, s1) \<Rightarrow>
        (case matchGroup s1 of None \<Rightarrow> None
         | Some (h2, s2) \<Rightarrow>
           (case matchGroup s2 of None \<Rightarrow> None
            | Some (h3, s3) \<Rightarrow> if s3 = [] then Some (h1, h2, h3) else None)))"

text \<open>
  The whole expression, anchored at the start: the greedy \<^verbatim>\<open>#?\<close> first takes a
  leading \<^verbatim>\<open>#\<close> (code unit 35), and gives it back when the rest does not match.
\<close>

definition regexExec :: "jsstring \<Rightarrow> (jsstring \<times> jsstring \<times> jsstring) option" where
  "regexExec s =
     (case s of
        c # t \<Rightarrow>
          (if c = 35 then (case matchGroups t of Some m \<Rightarrow> Some m | None \<Rightarrow> matchGroups s)
           else matchGroups s)
      | [] \<Rightarrow> matchGroups s)"

definition hexDigit :: "nat \<Rightarrow> nat" where
  "hexDigit c = (if 97 \<le> c then c - 87 else if 65 \<le> c then c - 55 else c - 48)"

text \<open>\<^verbatim>\<open>parseInt(s, 16)\<close> on a string of hexadecimal digits.\<close>

definition parseHex :: "jsstring \<Rightarrow> nat" where
  "parseHex s = foldl (\<lambda>acc c. 16 * acc + hexDigit c) 0 s"

definition hexToRgb :: "jsstring \<Rightarrow> rgb" where
  "hexToRgb hex =
     (case regexExec hex of
        Some (h1, h2, h3) \<Rightarrow> \<lparr>r = parseHex h1, g = parseHex h2, b = parseHex h3\<rparr>
      | None \<Rightarrow> \<lparr>r = 0, g = 0, b = 0\<rparr>)"

text \<open>
  The specification's words: a colour code is six hexadecimal digits, with or
  without a leading \<^verbatim>\<open>#\<close>.
\<close>

definition isHexColorCode :: "jsstring \<Rightarrow> bool" where
  "isHexColorCode s =
     (let t = (if s \<noteq> [] \<and> hd s = 35 then tl s else s)
      in length t = 6 \<and> list_all hexClass t)"

section \<open>Bounds of the point set\<close>

text \<open>
  A validated row: the decoder keeps only rows whose coordinates are numbers. The
  coordinates of a row are taken to be finite; an infinite coordinate is outside the
  model.
\<close>

record CsvRow =
  gps_latitude :: real
  gps_longitude :: real
  carrier :: jsstring

record Bounds =
  xmin :: jsnum
  xmax :: jsnum
  ymin :: jsnum
  ymax :: jsnum

text \<open>The body of the loop of \<^verbatim>\<open>computeBounds\<close>: four guarded assignments.\<close>

definition boundsStep :: "CsvRow \<Rightarrow> Bounds \<Rightarrow> Bounds" where
  "boundsStep row bs =
     (let bs1 = (if js_lt (Fin (gps_longitude row)) (xmin bs)
                 then bs\<lparr>xmin := Fin (gps_longitude row)\<rparr> else bs);
          bs2 = (if js_gt (Fin (gps_longitude row)) (xmax bs1)
                 then bs1\<lparr>xmax := Fin (gps_longitude row)\<rparr> else bs1);
          bs3 = (if js_lt (Fin (gps_latitude row)) (ymin bs2)
                 then bs2\<lparr>ymin := Fin (gps_latitude row)\<rparr> else bs2)
      in (if js_gt (Fin (gps_latitude row)) (ymax bs3)
          then bs3\<lparr>ymax := Fin (gps_latitude row)\<rparr> else bs3))"

definition computeBounds :: "CsvRow list \<Rightarrow> Bounds" where
  "computeBounds data =
     (let bs = fold boundsStep data
                 \<lparr>xmin = PosInf, xmax = NegInf, ymin = PosInf, ymax = NegInf\<rparr>;
          dx = js_sub (xmax bs) (xmin bs);
          dy = js_sub (ymax bs) (ymin bs)
      in \<lparr>xmin = js_sub (xmin bs) (js_mul dx (Fin (2 / 100))),
          xmax = js_add (xmax bs) (js_mul dx (Fin (2 / 100))),
          ymin = js_sub (ymin bs) (js_mul dy (Fin (2 / 100))),
          ymax = js_add (ymax bs) (js_mul dy (Fin (2 / 100)))\<rparr>)"

section \<open>The density grid\<close>

record ProcessingConfig =
  gridRes :: nat
  radius :: real
  thresholdRatio :: real

text \<open>
  A number used as the index of a typed array names a cell only when it is an
  integer; any other number names no cell.
\<close>

definition js_index :: "jsnum \<Rightarrow> int option" where
  "js_index v = (case v of Fin a \<Rightarrow> (if a = of_int \<lfloor>a\<rfloor> then Some \<lfloor>a\<rfloor> else None) | _ \<Rightarrow> None)"

text \<open>
  The scale of one axis, \<^verbatim>\<open>(gridRes - 1) / (max - min + 1e-9)\<close>, and the index of a
  coordinate on that axis, \<^verbatim>\<open>Math.round((v - min) * scale)\<close>.
\<close>

definition axisScale :: "nat \<Rightarrow> jsnum \<Rightarrow> jsnum \<Rightarrow> jsnum" where
  "axisScale res lo hi = js_div (Fin (real res - 1)) (js_add (js_sub hi lo) (Fin (1 / 10 ^ 9)))"

definition axisIndex :: "jsnum \<Rightarrow> jsnum \<Rightarrow> real \<Rightarrow> jsnum" where
  "axisIndex scale lo v = js_round (js_mul (js_sub (Fin v) lo) scale)"

text \<open>The test \<^verbatim>\<open>xi >= 0 && xi < gridRes && yi >= 0 && yi < gridRes\<close>.\<close>

definition inGrid :: "nat \<Rightarrow> jsnum \<Rightarrow> jsnum \<Rightarrow> bool" where
  "inGrid res xi yi =
     (js_ge xi (Fin 0) \<and> js_lt xi (Fin (real res)) \<and> js_ge yi (Fin 0) \<and> js_lt yi (Fin (real res)))"

text \<open>The body of the accumulation loop: \<^verbatim>\<open>grid[yi * gridRes + xi] += 1.0\<close> under the test.\<close>

definition accumulateStep :: "Bounds \<Rightarrow> nat \<Rightarrow> CsvRow \<Rightarrow> jsnum list \<Rightarrow> jsnum list" where
  "accumulateStep bounds res row grid =
     (let xi = axisIndex (axisScale res (xmin bounds) (xmax bounds)) (xmin bounds) (gps_longitude row);
          yi = axisIndex (axisScale res (ymin bounds) (ymax bounds)) (ymin bounds) (gps_latitude row)
      in if inGrid res xi yi
         then (case js_index (js_add (js_mul yi (Fin (real res))) xi) of
                 Some i \<Rightarrow> ta_set grid i (js_add (ta_get grid i) (Fin 1))
               | None \<Rightarrow> grid)
         else grid)"

definition accumulateDensity :: "CsvRow list \<Rightarrow> Bounds \<Rightarrow> nat \<Rightarrow> jsnum list" where
  "accumulateDensity data bounds res =
     fold (accumulateStep bounds res) data (replicate (res * res) (Fin 0))"

section \<open>Gaussian smoothing\<close>

datatype error = RangeError | IndexSizeError

text \<open>
  The kernel. A typed array of negative length cannot be created: the constructor
  throws \<^verbatim>\<open>RangeError\<close>. The first loop fills the kernel and adds up its values, the
  second divides every value by the sum.
\<close>

definition kernelValue :: "real \<Rightarrow> int \<Rightarrow> jsnum" where
  "kernelValue sigma x = js_exp (js_div (Fin (- (of_int (x * x)))) (Fin (2 * sigma * sigma)))"

definition createGaussianKernel :: "real \<Rightarrow> error + jsnum list" where
  "createGaussianKernel sigma =
     (let size = \<lceil>sigma * 3\<rceil> * 2 + 1
      in if size < 0 then Inl RangeError
         else
           (let center = size div 2;
                (kern, total) =
                   fold (\<lambda>i (kern, total).
                           (let x = int i - center; val = kernelValue sigma x
                            in (ta_set kern (int i) val, js_add total val)))
                        [0..<nat size] (replicate (nat size) (Fin 0), Fin 0)
            in Inr (fold (\<lambda>i kern. ta_set kern (int i) (js_div (ta_get kern (int i)) total))
                         [0..<nat size] kern)))"

text \<open>The clamped coordinate \<^verbatim>\<open>p < 0 ? 0 : (p >= n ? n - 1 : p)\<close>.\<close>

definition clampIndex :: "int \<Rightarrow> int \<Rightarrow> int" where
  "clampIndex n p = (if p < 0 then 0 else (if p \<ge> n then n - 1 else p))"

text \<open>
  The innermost loop of both passes: the sum of the sampled cells, each times its
  weight, over the kernel, starting from zero.
\<close>

definition weightedSum :: "jsnum list \<Rightarrow> jsnum list \<Rightarrow> (nat \<Rightarrow> int) \<Rightarrow> jsnum" where
  "weightedSum data kern sample =
     fold (\<lambda>k total. js_add total (js_mul (ta_get data (sample k)) (ta_get kern (int k))))
          [0..<length kern] (Fin 0)"

definition convolveH :: "jsnum list \<Rightarrow> nat \<Rightarrow> nat \<Rightarrow> jsnum list \<Rightarrow> jsnum list" where
  "convolveH data width height kern =
     (let kSize = length kern; kCenter = int kSize div 2
      in fold (\<lambda>y output.
           (let rowOffset = int y * int width
            in fold (\<lambda>x output.
                 (let total =
                        weightedSum data kern
                          (\<lambda>k. let kIdx = int k - kCenter;
                                   px = int x + kIdx;
                                   clampedX = clampIndex (int width) px
                               in rowOffset + clampedX)
                  in ta_set output (rowOffset + int x) total))
                 [0..<width] output))
           [0..<height] (replicate (length data) (Fin 0)))"

definition convolveV :: "jsnum list \<Rightarrow> nat \<Rightarrow> nat \<Rightarrow> jsnum list \<Rightarrow> jsnum list" where
  "convolveV data width height kern =
     (let kSize = length kern; kCenter = int kSize div 2
      in fold (\<lambda>x output.
           fold (\<lambda>y output.
             (let total =
                    weightedSum data kern
                      (\<lambda>k. let kIdx = int k - kCenter;
                               py = int y + kIdx;
                               clampedY = clampIndex (int height) py
                           in clampedY * int width + int x)
              in ta_set output (int y * int width + int x) total))
             [0..<height] output)
           [0..<width] (replicate (length data) (Fin 0)))"

section \<open>The adaptive threshold\<close>

text \<open>
  \<^verbatim>\<open>validValues.sort((a, b) => a - b)\<close>: the comparator puts \<open>a\<close> after \<open>b\<close> when
  \<open>a - b\<close> is positive, and a comparator result of \<^verbatim>\<open>NaN\<close> counts as zero. The values
  sorted are all greater than zero, on which the comparator is consistent, so the
  result is the ascending order whatever the algorithm; insertion is used here.
\<close>

fun insertSorted :: "jsnum \<Rightarrow> jsnum list \<Rightarrow> jsnum list" where
  "insertSorted v [] = [v]"
| "insertSorted v (w # ws) =
     (if js_gt (js_sub v w) (Fin 0) then w # insertSorted v ws else v # w # ws)"

definition sortAscending :: "jsnum list \<Rightarrow> jsnum list" where
  "sortAscending vs = foldr insertSorted vs []"

definition percentileMax :: "jsnum list \<Rightarrow> jsnum" where
  "percentileMax heat =
     (let validValues = filter (\<lambda>v. js_gt v (Fin 0)) heat
      in if length validValues > 0
         then (let sorted = sortAscending validValues;
                   pIndex = \<lfloor>(real (length validValues) - 1) * (995 / 1000)\<rfloor>
               in sorted ! nat pIndex)
         else Fin 0)"

definition cutOffOf :: "jsnum \<Rightarrow> real \<Rightarrow> jsnum" where
  "cutOffOf maxH ratio = js_mul maxH (Fin ratio)"

section \<open>The pixel encoder\<close>

text \<open>
  A store into a \<^verbatim>\<open>Uint8ClampedArray\<close>: \<^verbatim>\<open>NaN\<close> becomes 0, the value is clamped to
  the range 0 to 255 and rounded to the nearest integer, a half to the even one.
\<close>

definition toUint8Clamp :: "jsnum \<Rightarrow> nat" where
  "toUint8Clamp v =
     (case v of
        NaN \<Rightarrow> 0
      | NegInf \<Rightarrow> 0
      | PosInf \<Rightarrow> 255
      | Fin a \<Rightarrow>
          (if a \<le> 0 then 0 else if 255 \<le> a then 255
           else (let f = \<lfloor>a\<rfloor>
                 in if a - of_int f < 1 / 2 then nat f
                    else if 1 / 2 < a - of_int f then nat (f + 1)
                    else if even f then nat f else nat (f + 1))))"

text \<open>
  The normalised density: the quotient, then the two clamps
  \<^verbatim>\<open>if (norm < 0) norm = 0; if (norm > 1) norm = 1\<close>.
\<close>

definition normOf :: "jsnum \<Rightarrow> jsnum \<Rightarrow> jsnum \<Rightarrow> jsnum" where
  "normOf val cutOff maxH =
     (let nrm = js_div (js_sub val cutOff) (js_sub maxH cutOff);
          nrm = (if js_lt nrm (Fin 0) then Fin 0 else nrm)
      in (if js_gt nrm (Fin 1) then Fin 1 else nrm))"

definition alphaOf :: "jsnum \<Rightarrow> jsnum" where
  "alphaOf nrm = js_add (Fin 77) (js_mul (Fin (255 - 77)) nrm)"

definition glowOf :: "jsnum \<Rightarrow> jsnum" where
  "glowOf nrm = js_mul nrm (Fin (6 / 10))"

definition channelOf :: "nat \<Rightarrow> jsnum \<Rightarrow> jsnum" where
  "channelOf base glow = js_add (Fin (real base)) (js_mul (Fin (255 - real base)) glow)"

text \<open>
  The body of the encoding loop, for the cell \<open>i\<close> of the grid. The loop runs only
  on a grid of positive side, so the quotient and the remainder by the side are
  those of the integers.
\<close>

definition encodeCell :: "jsnum list \<Rightarrow> nat \<Rightarrow> jsnum \<Rightarrow> jsnum \<Rightarrow> rgb \<Rightarrow> nat \<Rightarrow> nat list \<Rightarrow> nat list" where
  "encodeCell heat res cutOff maxH col i pixels =
     (let val = ta_get heat (int i);
          y = int (i div res);
          x = int (i mod res);
          targetY = int res - 1 - y;
          targetIdx = (targetY * int res + x) * 4
      in if js_lt val cutOff then ta_set pixels (targetIdx + 3) 0
         else
           (let nrm = normOf val cutOff maxH;
                alpha = alphaOf nrm;
                glow = glowOf nrm;
                pixels = ta_set pixels targetIdx (toUint8Clamp (js_floor (channelOf (r col) glow)));
                pixels = ta_set pixels (targetIdx + 1) (toUint8Clamp (js_floor (channelOf (g col) glow)));
                pixels = ta_set pixels (targetIdx + 2) (toUint8Clamp (js_floor (channelOf (b col) glow)))
            in ta_set pixels (targetIdx + 3) (toUint8Clamp (js_floor alpha))))"

definition encodePixels :: "jsnum list \<Rightarrow> nat \<Rightarrow> jsnum \<Rightarrow> jsnum \<Rightarrow> rgb \<Rightarrow> nat list" where
  "encodePixels heat res cutOff maxH col =
     fold (encodeCell heat res cutOff maxH col) [0..<length heat] (replicate (res * res * 4) 0)"

text \<open>
  The blur: the kernel, the horizontal pass over the grid and the vertical pass
  over the result of the horizontal one. Then the whole layer, up to the pixel
  buffer handed to the image encoder. An image of side zero cannot be created:
  \<^verbatim>\<open>createImageData\<close> throws. The browser is taken to provide the drawing context
  and to encode the buffer; these two failures of the environment are outside the
  model.
\<close>

definition smoothGrid :: "jsnum list \<Rightarrow> nat \<Rightarrow> real \<Rightarrow> error + jsnum list" where
  "smoothGrid grid res sigma =
     (case createGaussianKernel sigma of
        Inl e \<Rightarrow> Inl e
      | Inr kern \<Rightarrow>
          (let passH = convolveH grid res res kern
           in Inr (convolveV passH res res kern)))"

definition generateHeatmapLayer ::
  "CsvRow list \<Rightarrow> Bounds \<Rightarrow> jsstring \<Rightarrow> ProcessingConfig \<Rightarrow> error + nat list" where
  "generateHeatmapLayer data bounds color config =
     (let grid = accumulateDensity data bounds (gridRes config)
      in case smoothGrid grid (gridRes config) (radius config) of
           Inl e \<Rightarrow> Inl e
         | Inr heat \<Rightarrow>
             (let maxH = percentileMax heat;
                  cutOff = cutOffOf maxH (thresholdRatio config);
                  col = hexToRgb color
              in if gridRes config = 0 then Inl IndexSizeError
                 else Inr (encodePixels heat (gridRes config) cutOff maxH col)))"

section \<open>Reference definitions from the specification\<close>

text \<open>
  The specification's bounding box: the exact box of the least and greatest
  coordinates, widened on each side by 2 percent of its span.
\<close>

definition specBounds :: "CsvRow list \<Rightarrow> Bounds" where
  "specBounds data =
     (let lx = Min (gps_longitude ` set data); hx = Max (gps_longitude ` set data);
          ly = Min (gps_latitude ` set data); hy = Max (gps_latitude ` set data);
          dx = hx - lx; dy = hy - ly
      in \<lparr>xmin = Fin (lx - (2 / 100) * dx), xmax = Fin (hx + (2 / 100) * dx),
          ymin = Fin (ly - (2 / 100) * dy), ymax = Fin (hy + (2 / 100) * dy)\<rparr>)"

text \<open>
  The offset in the pixel buffer of the pixel of cell \<open>i\<close>: the row is flipped, the
  column kept, four bytes a pixel.
\<close>

definition pixelOffset :: "nat \<Rightarrow> nat \<Rightarrow> nat" where
  "pixelOffset res i = ((res - 1 - i div res) * res + i mod res) * 4"

text \<open>
  The specification's saturation reference: the strictly positive cells sorted
  ascending, read at index \<open>floor ((n - 1) * 0.995)\<close>; zero when there is none.
\<close>

definition specMaxDensity :: "real list \<Rightarrow> real" where
  "specMaxDensity hs =
     (let ps = filter (\<lambda>h. 0 < h) hs
      in if ps = [] then 0 else sort ps ! nat \<lfloor>(real (length ps) - 1) * (995 / 1000)\<rfloor>)"




section \<open>The archive\<close>

record LatLonBox =
  north :: jsnum
  south :: jsnum
  east :: jsnum
  west :: jsnum

record 'blob Layer =
  name :: jsstring
  blob :: 'blob
  bounds :: LatLonBox












section \<open>Reference definitions for the smoothing\<close>

text \<open>
  The specification's kernel: half-width \<open>ceil (3 * sigma)\<close>, one weight for every
  offset from minus to plus the half-width, \<open>exp (- k\<^sup>2 / (2 * sigma\<^sup>2))\<close>, divided by
  the sum of all of them.
\<close>

definition gaussWeights :: "real \<Rightarrow> real list" where
  "gaussWeights sigma =
     (let half = nat \<lceil>3 * sigma\<rceil>;
          es = map (\<lambda>i. exp (- ((real i - real half)\<^sup>2) / (2 * sigma\<^sup>2))) [0..<2 * half + 1]
      in map (\<lambda>e. e / sum_list es) es)"

text \<open>
  The two passes on exact reals: every cell is the weighted sum of the cells of its
  row (of its column) at the clamped positions.
\<close>

definition specConvH :: "real list \<Rightarrow> nat \<Rightarrow> nat \<Rightarrow> real list \<Rightarrow> real list" where
  "specConvH d w h kr =
     map (\<lambda>i. \<Sum>k<length kr.
                d ! ((i div w) * w
                     + nat (clampIndex (int w) (int (i mod w) + (int k - int (length kr) div 2))))
                * kr ! k)
         [0..<w * h]"

definition specConvV :: "real list \<Rightarrow> nat \<Rightarrow> nat \<Rightarrow> real list \<Rightarrow> real list" where
  "specConvV d w h kr =
     map (\<lambda>i. \<Sum>k<length kr.
                d ! (nat (clampIndex (int h) (int (i div w) + (int k - int (length kr) div 2))) * w
                     + i mod w)
                * kr ! k)
         [0..<w * h]"


definition gridTotal :: "jsnum list \<Rightarrow> jsnum" where
  "gridTotal cells = fold (\<lambda>v total. js_add total v) cells (Fin 0)"

section \<open>Properties of the colour parser\<close>

lemma matchGroup_Some:
  "matchGroup s = Some (h, rest) \<Longrightarrow> s = h @ rest \<and> length h = 2 \<and> list_all hexClass h"
  by (cases s rule: matchGroup.cases) (auto split: if_splits)

lemma matchGroups_Some:
  assumes "matchGroups s = Some (h1, h2, h3)"
  shows "length s = 6 \<and> list_all hexClass s"
proof -
  from assms obtain s1 s2 where
    a: "matchGroup s = Some (h1, s1)" and b: "matchGroup s1 = Some (h2, s2)"
    and c: "matchGroup s2 = Some (h3, [])"
    by (auto simp: matchGroups_def split: option.splits if_splits)
  from matchGroup_Some [OF a] matchGroup_Some [OF b] matchGroup_Some [OF c]
  show ?thesis by simp
qed

lemma regexExec_Some:
  assumes "regexExec s = Some m"
  shows "isHexColorCode s"
proof -
  obtain h1 h2 h3 where m: "m = (h1, h2, h3)" by (cases m) auto
  show ?thesis
  proof (cases s)
    case Nil
    with assms m have "matchGroups [] = Some (h1, h2, h3)" by (simp add: regexExec_def)
    from matchGroups_Some [OF this] show ?thesis by simp
  next
    case (Cons c t)
    show ?thesis
    proof (cases "c = 35")
      case False
      with assms m Cons have "matchGroups s = Some (h1, h2, h3)"
        by (simp add: regexExec_def)
      from matchGroups_Some [OF this] False Cons show ?thesis
        by (simp add: isHexColorCode_def)
    next
      case True
      have "\<not> hexClass 35" by (simp add: hexClass_def)
      then have "matchGroups s = None"
        using Cons True matchGroups_Some [of s] by (cases "matchGroups s") auto
      with assms m Cons True have "matchGroups t = Some (h1, h2, h3)"
        by (simp add: regexExec_def split: option.splits)
      from matchGroups_Some [OF this] True Cons show ?thesis
        by (simp add: isHexColorCode_def)
    qed
  qed
qed

text \<open>
  Claim C8. The colour parser has no failing branch: on every string that is not a
  colour code of six hexadecimal digits, with or without a leading \<^verbatim>\<open>#\<close>, it
  returns black, and so it does on the string "notacolor".
\<close>

theorem hexToRgb_malformed_black:
  "(\<not> isHexColorCode s \<longrightarrow> hexToRgb s = \<lparr>r = 0, g = 0, b = 0\<rparr>)
   \<and> hexToRgb (str ''notacolor'') = \<lparr>r = 0, g = 0, b = 0\<rparr>"
proof
  show "\<not> isHexColorCode s \<longrightarrow> hexToRgb s = \<lparr>r = 0, g = 0, b = 0\<rparr>"
    using regexExec_Some [of s] by (cases "regexExec s") (auto simp: hexToRgb_def)
  show "hexToRgb (str ''notacolor'') = \<lparr>r = 0, g = 0, b = 0\<rparr>"
    by (simp add: hexToRgb_def regexExec_def matchGroups_def str_def hexClass_def)
qed

theorem hexToRgb_malformed_black_witness:
  "\<not> isHexColorCode (str ''#12345'') \<and> hexToRgb (str ''#12345'') = \<lparr>r = 0, g = 0, b = 0\<rparr>"
  using hexToRgb_malformed_black [of "str ''#12345''"]
  by (simp add: isHexColorCode_def str_def)

section \<open>Properties of the bounds\<close>

lemma boundsStep_Fin:
  "boundsStep p \<lparr>xmin = Fin a, xmax = Fin c, ymin = Fin d, ymax = Fin e\<rparr> =
     \<lparr>xmin = Fin (min (gps_longitude p) a), xmax = Fin (max (gps_longitude p) c),
      ymin = Fin (min (gps_latitude p) d), ymax = Fin (max (gps_latitude p) e)\<rparr>"
  by (simp add: boundsStep_def js_gt_def min_def max_def Let_def)

lemma boundsStep_init:
  "boundsStep p \<lparr>xmin = PosInf, xmax = NegInf, ymin = PosInf, ymax = NegInf\<rparr> =
     \<lparr>xmin = Fin (gps_longitude p), xmax = Fin (gps_longitude p),
      ymin = Fin (gps_latitude p), ymax = Fin (gps_latitude p)\<rparr>"
  by (simp add: boundsStep_def js_gt_def)

lemma fold_boundsStep_Fin:
  "fold boundsStep ps \<lparr>xmin = Fin a, xmax = Fin c, ymin = Fin d, ymax = Fin e\<rparr> =
     \<lparr>xmin = Fin (fold min (map gps_longitude ps) a), xmax = Fin (fold max (map gps_longitude ps) c),
      ymin = Fin (fold min (map gps_latitude ps) d), ymax = Fin (fold max (map gps_latitude ps) e)\<rparr>"
  by (induction ps arbitrary: a c d e) (simp_all add: boundsStep_Fin)

lemma fold_boundsStep_nonempty:
  assumes "data \<noteq> []"
  shows "fold boundsStep data \<lparr>xmin = PosInf, xmax = NegInf, ymin = PosInf, ymax = NegInf\<rparr> =
     \<lparr>xmin = Fin (Min (gps_longitude ` set data)), xmax = Fin (Max (gps_longitude ` set data)),
      ymin = Fin (Min (gps_latitude ` set data)), ymax = Fin (Max (gps_latitude ` set data))\<rparr>"
proof -
  from assms obtain p ps where d: "data = p # ps" by (cases data) auto
  have "Min (set (map gps_longitude (p # ps))) = fold min (map gps_longitude ps) (gps_longitude p)"
    "Max (set (map gps_longitude (p # ps))) = fold max (map gps_longitude ps) (gps_longitude p)"
    "Min (set (map gps_latitude (p # ps))) = fold min (map gps_latitude ps) (gps_latitude p)"
    "Max (set (map gps_latitude (p # ps))) = fold max (map gps_latitude ps) (gps_latitude p)"
    by (simp_all only: list.map Min.set_eq_fold Max.set_eq_fold)
  then show ?thesis
    unfolding d by (simp add: boundsStep_init fold_boundsStep_Fin del: Min_insert Max_insert)
qed

lemma padded_Fin:
  "js_sub (Fin lo) (js_mul (js_sub (Fin hi) (Fin lo)) (Fin (2 / 100))) = Fin (lo - (2 / 100) * (hi - lo))"
  "js_add (Fin hi) (js_mul (js_sub (Fin hi) (Fin lo)) (Fin (2 / 100))) = Fin (hi + (2 / 100) * (hi - lo))"
  by (simp_all add: js_sub_def)

lemma computeBounds_spec:
  assumes "data \<noteq> []"
  shows "computeBounds data = specBounds data"
  by (simp only: computeBounds_def specBounds_def fold_boundsStep_nonempty [OF assms] Let_def
        padded_Fin Bounds.select_convs)

lemma pad_contains:
  fixes lo hi v :: real
  assumes "lo \<le> v" and "v \<le> hi"
  shows "lo - (2 / 100) * (hi - lo) \<le> v" and "v \<le> hi + (2 / 100) * (hi - lo)"
  using assms by argo+

lemma specBounds_contains:
  assumes "p \<in> set data"
  shows "js_le (xmin (specBounds data)) (Fin (gps_longitude p))"
    and "js_le (Fin (gps_longitude p)) (xmax (specBounds data))"
    and "js_le (ymin (specBounds data)) (Fin (gps_latitude p))"
    and "js_le (Fin (gps_latitude p)) (ymax (specBounds data))"
proof -
  have x: "Min (gps_longitude ` set data) \<le> gps_longitude p"
    "gps_longitude p \<le> Max (gps_longitude ` set data)"
    using assms by simp_all
  have y: "Min (gps_latitude ` set data) \<le> gps_latitude p"
    "gps_latitude p \<le> Max (gps_latitude ` set data)"
    using assms by simp_all
  show "js_le (xmin (specBounds data)) (Fin (gps_longitude p))"
    and "js_le (Fin (gps_longitude p)) (xmax (specBounds data))"
    using pad_contains [OF x] by (simp_all add: specBounds_def Let_def)
  show "js_le (ymin (specBounds data)) (Fin (gps_latitude p))"
    and "js_le (Fin (gps_latitude p)) (ymax (specBounds data))"
    using pad_contains [OF y] by (simp_all add: specBounds_def Let_def)
qed

lemma specBounds_single:
  assumes "data \<noteq> []" and "\<forall>p \<in> set data. gps_longitude p = x \<and> gps_latitude p = y"
  shows "specBounds data = \<lparr>xmin = Fin x, xmax = Fin x, ymin = Fin y, ymax = Fin y\<rparr>"
proof -
  from assms obtain p ps where d: "data = p # ps" by (cases data) auto
  have "gps_longitude ` set data = {x}" "gps_latitude ` set data = {y}"
    using assms(2) unfolding d by auto
  then show ?thesis by (simp add: specBounds_def)
qed

text \<open>
  Claim C2. On a non-empty list of points \<^verbatim>\<open>computeBounds\<close> returns the exact box
  of the least and greatest coordinates widened on each side by 2 percent of its
  span; the box contains every point; and when all the points share one position
  the padding is zero and the box is that single position.
\<close>

theorem computeBounds_contains_points:
  assumes "data \<noteq> []"
  shows "computeBounds data = specBounds data
    \<and> (\<forall>p \<in> set data.
          js_le (xmin (computeBounds data)) (Fin (gps_longitude p))
        \<and> js_le (Fin (gps_longitude p)) (xmax (computeBounds data))
        \<and> js_le (ymin (computeBounds data)) (Fin (gps_latitude p))
        \<and> js_le (Fin (gps_latitude p)) (ymax (computeBounds data)))
    \<and> ((\<forall>p \<in> set data. gps_longitude p = x \<and> gps_latitude p = y) \<longrightarrow>
          computeBounds data = \<lparr>xmin = Fin x, xmax = Fin x, ymin = Fin y, ymax = Fin y\<rparr>)"
  using assms specBounds_single [of data x y]
  by (simp add: computeBounds_spec specBounds_contains)

theorem computeBounds_contains_points_witness:
  "computeBounds [\<lparr>gps_latitude = 1, gps_longitude = 2, carrier = []\<rparr>,
                  \<lparr>gps_latitude = 3, gps_longitude = 5, carrier = []\<rparr>]
     = \<lparr>xmin = Fin (97 / 50), xmax = Fin (253 / 50), ymin = Fin (24 / 25), ymax = Fin (76 / 25)\<rparr>
   \<and> computeBounds [\<lparr>gps_latitude = 1, gps_longitude = 2, carrier = []\<rparr>,
                    \<lparr>gps_latitude = 1, gps_longitude = 2, carrier = str ''A''\<rparr>]
     = \<lparr>xmin = Fin 2, xmax = Fin 2, ymin = Fin 1, ymax = Fin 1\<rparr>"
  using computeBounds_contains_points
          [of "[\<lparr>gps_latitude = 1, gps_longitude = 2, carrier = []\<rparr>,
                \<lparr>gps_latitude = 3, gps_longitude = 5, carrier = []\<rparr>]"]
        computeBounds_contains_points
          [of "[\<lparr>gps_latitude = 1, gps_longitude = 2, carrier = []\<rparr>,
                \<lparr>gps_latitude = 1, gps_longitude = 2, carrier = str ''A''\<rparr>]" 2 1]
  by (simp add: specBounds_def)

section \<open>Properties of the pixel encoder\<close>

lemma flip_less:
  fixes i res :: nat
  assumes "i < res * res"
  shows "(res - 1 - i div res) * res + i mod res < res * res"
proof -
  have pos: "0 < res" using assms by (cases res) auto
  have "i mod res < res" using pos by simp
  moreover have "(res - 1 - i div res) * res \<le> (res - 1) * res"
    by (rule mult_le_mono1) simp
  ultimately have "(res - 1 - i div res) * res + i mod res < (res - 1) * res + res" by linarith
  also have "\<dots> = res * res" using pos by (cases res) simp_all
  finally show ?thesis .
qed

lemma pixelOffset_less:
  "i < res * res \<Longrightarrow> pixelOffset res i + 3 < res * res * 4"
  using flip_less [of i res] by (simp add: pixelOffset_def)

lemma flip_inj:
  fixes i j res :: nat
  assumes "i < res * res" and "j < res * res"
    and "(res - 1 - i div res) * res + i mod res = (res - 1 - j div res) * res + j mod res"
  shows "i = j"
proof -
  have pos: "0 < res" using assms(1) by (cases res) auto
  have qi: "i div res < res" using assms(1) pos by (simp add: less_mult_imp_div_less)
  have qj: "j div res < res" using assms(2) pos by (simp add: less_mult_imp_div_less)
  have "((res - 1 - i div res) * res + i mod res) mod res = ((res - 1 - j div res) * res + j mod res) mod res"
    using assms(3) by simp
  then have m: "i mod res = j mod res" by simp
  have "((res - 1 - i div res) * res + i mod res) div res = ((res - 1 - j div res) * res + j mod res) div res"
    using assms(3) by simp
  then have "res - 1 - i div res = res - 1 - j div res" using pos by simp
  then have d: "i div res = j div res" using qi qj by linarith
  have "i = i div res * res + i mod res" by simp
  also have "\<dots> = j div res * res + j mod res" using m d by simp
  also have "\<dots> = j" by simp
  finally show ?thesis .
qed

lemma pixelOffset_disjoint:
  assumes "i < res * res" and "j < res * res" and "i \<noteq> j"
  shows "{pixelOffset res i ..< pixelOffset res i + 4} \<inter> {pixelOffset res j ..< pixelOffset res j + 4} = {}"
proof -
  have "(res - 1 - i div res) * res + i mod res \<noteq> (res - 1 - j div res) * res + j mod res"
    using flip_inj [OF assms(1,2)] assms(3) by blast
  then show ?thesis by (auto simp: pixelOffset_def)
qed

lemma fold_blocks:
  fixes f :: "nat \<Rightarrow> 'a list \<Rightarrow> 'a list"
  assumes len0: "\<forall>i xs. i < n \<longrightarrow> length xs = L \<longrightarrow> length (f i xs) = L"
    and keep0: "\<forall>i xs j. i < n \<longrightarrow> length xs = L \<longrightarrow> j \<notin> B i \<longrightarrow> f i xs ! j = xs ! j"
    and put0: "\<forall>i xs j. i < n \<longrightarrow> length xs = L \<longrightarrow> j \<in> B i \<longrightarrow> f i xs ! j = v i j"
    and disj0: "\<forall>i j. i < n \<longrightarrow> j < n \<longrightarrow> i \<noteq> j \<longrightarrow> B i \<inter> B j = {}"
    and init: "length xs = L"
  shows "length (fold f [0..<n] xs) = L"
    and "\<And>j. (\<forall>i<n. j \<notin> B i) \<Longrightarrow> fold f [0..<n] xs ! j = xs ! j"
    and "\<And>i j. i < n \<Longrightarrow> j \<in> B i \<Longrightarrow> fold f [0..<n] xs ! j = v i j"
proof -
  have len: "\<And>i xs. i < n \<Longrightarrow> length xs = L \<Longrightarrow> length (f i xs) = L"
    and keep: "\<And>i xs j. i < n \<Longrightarrow> length xs = L \<Longrightarrow> j \<notin> B i \<Longrightarrow> f i xs ! j = xs ! j"
    and put: "\<And>i xs j. i < n \<Longrightarrow> length xs = L \<Longrightarrow> j \<in> B i \<Longrightarrow> f i xs ! j = v i j"
    and disj: "\<And>i j. i < n \<Longrightarrow> j < n \<Longrightarrow> i \<noteq> j \<Longrightarrow> B i \<inter> B j = {}"
    using len0 keep0 put0 disj0 by blast+
  have "m \<le> n \<Longrightarrow> length (fold f [0..<m] xs) = L
        \<and> (\<forall>j. (\<forall>i<m. j \<notin> B i) \<longrightarrow> fold f [0..<m] xs ! j = xs ! j)
        \<and> (\<forall>i j. i < m \<longrightarrow> j \<in> B i \<longrightarrow> fold f [0..<m] xs ! j = v i j)" for m
  proof (induction m)
    case 0
    then show ?case using init by simp
  next
    case (Suc m)
    let ?p = "fold f [0..<m] xs"
    from Suc have mn: "m < n" and ih: "length ?p = L"
      "\<And>j. (\<forall>i<m. j \<notin> B i) \<Longrightarrow> ?p ! j = xs ! j"
      "\<And>i j. i < m \<Longrightarrow> j \<in> B i \<Longrightarrow> ?p ! j = v i j"
      by auto
    have step: "fold f [0..<Suc m] xs = f m ?p" by simp
    have a: "length (f m ?p) = L" using len [OF mn ih(1)] .
    have b: "f m ?p ! j = xs ! j" if "\<forall>i<Suc m. j \<notin> B i" for j
      using that keep [OF mn ih(1), of j] ih(2) [of j] by auto
    have c: "f m ?p ! j = v i j" if "i < Suc m" "j \<in> B i" for i j
    proof (cases "i = m")
      case True
      then show ?thesis using put [OF mn ih(1)] that by simp
    next
      case False
      then have im: "i < m" using that by simp
      then have "j \<notin> B m" using disj [of i m] mn that(2) False by auto
      then show ?thesis using keep [OF mn ih(1)] ih(3) [OF im that(2)] by simp
    qed
    show ?case unfolding step using a b c by blast
  qed
  from this [of n] show "length (fold f [0..<n] xs) = L"
    and "\<And>j. (\<forall>i<n. j \<notin> B i) \<Longrightarrow> fold f [0..<n] xs ! j = xs ! j"
    and "\<And>i j. i < n \<Longrightarrow> j \<in> B i \<Longrightarrow> fold f [0..<n] xs ! j = v i j"
    by auto
qed
lemma targetIdx_eq:
  fixes i res :: nat
  assumes "i < res * res"
  shows "((int res - 1 - int (i div res)) * int res + int (i mod res)) * 4 = int (pixelOffset res i)"
proof -
  have pos: "0 < res" using assms by (cases res) auto
  have "i div res < res" using assms pos by (simp add: less_mult_imp_div_less)
  then have "int (res - 1 - i div res) = int res - 1 - int (i div res)" by linarith
  then show ?thesis by (simp add: pixelOffset_def)
qed

lemma ta_set_nat:
  "n < length xs \<Longrightarrow> ta_set xs (int n) v = xs[n := v]"
  "n + k < length xs \<Longrightarrow> ta_set xs (int n + int k) v = xs[n + k := v]"
  by (simp_all add: ta_set_def nat_add_distrib)

lemma ta_get_nat: "n < length xs \<Longrightarrow> ta_get xs (int n) = xs ! n"
  by (simp add: ta_get_def)

lemma encodeCell_eq:
  assumes "i < res * res" and "length pixels = res * res * 4"
  shows "encodeCell heat res cutOff maxH col i pixels =
     (if js_lt (ta_get heat (int i)) cutOff then pixels[pixelOffset res i + 3 := 0]
      else pixels
        [pixelOffset res i :=
           toUint8Clamp (js_floor (channelOf (r col) (glowOf (normOf (ta_get heat (int i)) cutOff maxH)))),
         pixelOffset res i + 1 :=
           toUint8Clamp (js_floor (channelOf (g col) (glowOf (normOf (ta_get heat (int i)) cutOff maxH)))),
         pixelOffset res i + 2 :=
           toUint8Clamp (js_floor (channelOf (b col) (glowOf (normOf (ta_get heat (int i)) cutOff maxH)))),
         pixelOffset res i + 3 :=
           toUint8Clamp (js_floor (alphaOf (normOf (ta_get heat (int i)) cutOff maxH)))])"
proof -
  have lt: "pixelOffset res i + 3 < length pixels"
    using pixelOffset_less [OF assms(1)] assms(2) by simp
  have s0: "ta_set xs (int (pixelOffset res i)) v = xs[pixelOffset res i := v]"
    if "length xs = length pixels" for xs :: "nat list" and v
    using lt that by (simp add: ta_set_def)
  have sk: "ta_set xs (int (pixelOffset res i) + k) v = xs[pixelOffset res i + nat k := v]"
    if "length xs = length pixels" "0 \<le> k" "k \<le> 3" for xs :: "nat list" and v k
    using lt that by (simp add: ta_set_def nat_add_distrib)
  show ?thesis
    unfolding encodeCell_def Let_def targetIdx_eq [OF assms(1)]
    by (simp add: s0 sk)
qed

text \<open>The bytes the encoder writes for one cell, and where.\<close>

lemma encodeCell_length:
  "i < res * res \<Longrightarrow> length pixels = res * res * 4 \<Longrightarrow>
   length (encodeCell heat res cutOff maxH col i pixels) = res * res * 4"
  by (simp add: encodeCell_eq)

lemma encodeCell_keep:
  assumes "i < res * res" and "length pixels = res * res * 4"
    and "j \<notin> {pixelOffset res i ..< pixelOffset res i + 4}"
  shows "encodeCell heat res cutOff maxH col i pixels ! j = pixels ! j"
proof -
  have "j \<noteq> pixelOffset res i" "j \<noteq> pixelOffset res i + 1"
    "j \<noteq> pixelOffset res i + 2" "j \<noteq> pixelOffset res i + 3"
    using assms(3) by auto
  then show ?thesis
    by (simp add: encodeCell_eq [OF assms(1,2)] del: One_nat_def)
qed

lemma encodeCell_alpha:
  assumes "i < res * res" and "length pixels = res * res * 4"
  shows "encodeCell heat res cutOff maxH col i pixels ! (pixelOffset res i + 3) =
     (if js_lt (ta_get heat (int i)) cutOff then 0
      else toUint8Clamp (js_floor (alphaOf (normOf (ta_get heat (int i)) cutOff maxH))))"
  using pixelOffset_less [OF assms(1)] assms(2) by (simp add: encodeCell_eq [OF assms])

lemma encodeCell_rgb:
  assumes "i < res * res" and "length pixels = res * res * 4"
    and "\<not> js_lt (ta_get heat (int i)) cutOff"
  shows "encodeCell heat res cutOff maxH col i pixels ! (pixelOffset res i) =
           toUint8Clamp (js_floor (channelOf (r col) (glowOf (normOf (ta_get heat (int i)) cutOff maxH))))"
    and "encodeCell heat res cutOff maxH col i pixels ! (pixelOffset res i + 1) =
           toUint8Clamp (js_floor (channelOf (g col) (glowOf (normOf (ta_get heat (int i)) cutOff maxH))))"
    and "encodeCell heat res cutOff maxH col i pixels ! (pixelOffset res i + 2) =
           toUint8Clamp (js_floor (channelOf (b col) (glowOf (normOf (ta_get heat (int i)) cutOff maxH))))"
  using pixelOffset_less [OF assms(1)] assms(2,3) by (simp_all add: encodeCell_eq [OF assms(1,2)])
lemma encodeCell_keep_transparent:
  assumes "i < res * res" and "length pixels = res * res * 4"
    and "js_lt (ta_get heat (int i)) cutOff" and "j \<noteq> pixelOffset res i + 3"
  shows "encodeCell heat res cutOff maxH col i pixels ! j = pixels ! j"
  using assms(3,4) by (simp add: encodeCell_eq [OF assms(1,2)])

text \<open>
  The emitted buffer, pixel by pixel: every cell writes its own four bytes and no
  other, so the buffer holds at the offset of a cell what the loop wrote for it.
\<close>

lemma encodePixels_cell:
  assumes len: "length heat = res * res" and i: "i < res * res"
  shows "length (encodePixels heat res cutOff maxH col) = res * res * 4"
    and "encodePixels heat res cutOff maxH col ! (pixelOffset res i + 3) =
          (if js_lt (heat ! i) cutOff then 0
           else toUint8Clamp (js_floor (alphaOf (normOf (heat ! i) cutOff maxH))))"
    and "\<not> js_lt (heat ! i) cutOff \<Longrightarrow>
          encodePixels heat res cutOff maxH col ! (pixelOffset res i) =
            toUint8Clamp (js_floor (channelOf (r col) (glowOf (normOf (heat ! i) cutOff maxH))))
        \<and> encodePixels heat res cutOff maxH col ! (pixelOffset res i + 1) =
            toUint8Clamp (js_floor (channelOf (g col) (glowOf (normOf (heat ! i) cutOff maxH))))
        \<and> encodePixels heat res cutOff maxH col ! (pixelOffset res i + 2) =
            toUint8Clamp (js_floor (channelOf (b col) (glowOf (normOf (heat ! i) cutOff maxH))))"
proof -
  let ?f = "encodeCell heat res cutOff maxH col"
  let ?o = "pixelOffset res"
  let ?B = "\<lambda>k. if js_lt (heat ! k) cutOff then {?o k + 3} else {?o k ..< ?o k + 4}"
  let ?nrm = "\<lambda>k. normOf (heat ! k) cutOff maxH"
  let ?v = "\<lambda>k j. if j = ?o k + 3
                     then (if js_lt (heat ! k) cutOff then 0
                           else toUint8Clamp (js_floor (alphaOf (?nrm k))))
                     else if j = ?o k then toUint8Clamp (js_floor (channelOf (r col) (glowOf (?nrm k))))
                     else if j = ?o k + 1 then toUint8Clamp (js_floor (channelOf (g col) (glowOf (?nrm k))))
                     else toUint8Clamp (js_floor (channelOf (b col) (glowOf (?nrm k))))"
  have get: "ta_get heat (int k) = heat ! k" if "k < res * res" for k
    using that len by (simp add: ta_get_nat)
  have l: "length (?f k xs) = res * res * 4" if "k < res * res" "length xs = res * res * 4" for k xs
    using that by (rule encodeCell_length)
  have keep: "?f k xs ! j = xs ! j"
    if "k < res * res" "length xs = res * res * 4" "j \<notin> ?B k" for k xs j
  proof (cases "js_lt (heat ! k) cutOff")
    case True
    then show ?thesis
      using that encodeCell_keep_transparent [OF that(1,2), of heat cutOff j] get [OF that(1)] by simp
  next
    case False
    then show ?thesis using that encodeCell_keep [OF that(1,2), of j] by simp
  qed
  have put: "?f k xs ! j = ?v k j"
    if "k < res * res" "length xs = res * res * 4" "j \<in> ?B k" for k xs j
  proof (cases "js_lt (heat ! k) cutOff")
    case True
    then show ?thesis
      using that encodeCell_alpha [OF that(1,2), of heat cutOff] get [OF that(1)] by simp
  next
    case False
    then have "j = ?o k \<or> j = ?o k + 1 \<or> j = ?o k + 2 \<or> j = ?o k + 3" using that(3) by auto
    then show ?thesis
      using False encodeCell_alpha [OF that(1,2), of heat cutOff maxH col]
        encodeCell_rgb [OF that(1,2), of heat cutOff maxH col] get [OF that(1)]
      by auto
  qed
  have disj: "?B k \<inter> ?B j = {}" if "k < res * res" "j < res * res" "k \<noteq> j" for k j
  proof -
    have "?B k \<subseteq> {?o k ..< ?o k + 4}" "?B j \<subseteq> {?o j ..< ?o j + 4}" by auto
    then show ?thesis using pixelOffset_disjoint [OF that] by blast
  qed
  have init: "length (replicate (res * res * 4) (0::nat)) = res * res * 4" by simp
  have e: "encodePixels heat res cutOff maxH col = fold ?f [0..<res * res] (replicate (res * res * 4) 0)"
    by (simp add: encodePixels_def len)
  have l': "\<forall>k xs. k < res * res \<longrightarrow> length xs = res * res * 4 \<longrightarrow> length (?f k xs) = res * res * 4"
    using l by blast
  have keep': "\<forall>k xs j. k < res * res \<longrightarrow> length xs = res * res * 4 \<longrightarrow> j \<notin> ?B k \<longrightarrow> ?f k xs ! j = xs ! j"
    using keep by blast
  have put': "\<forall>k xs j. k < res * res \<longrightarrow> length xs = res * res * 4 \<longrightarrow> j \<in> ?B k \<longrightarrow> ?f k xs ! j = ?v k j"
    using put by blast
  have disj': "\<forall>k j. k < res * res \<longrightarrow> j < res * res \<longrightarrow> k \<noteq> j \<longrightarrow> ?B k \<inter> ?B j = {}"
    using disj by blast
  note fb = fold_blocks [of "res * res" "res * res * 4" ?f ?B ?v, OF l' keep' put' disj' init]
  show "length (encodePixels heat res cutOff maxH col) = res * res * 4"
    unfolding e by (rule fb(1))
  have a: "?o i + 3 \<in> ?B i" by simp
  show "encodePixels heat res cutOff maxH col ! (?o i + 3) =
          (if js_lt (heat ! i) cutOff then 0
           else toUint8Clamp (js_floor (alphaOf (normOf (heat ! i) cutOff maxH))))"
    unfolding e using fb(3) [OF i a] by simp
  show "encodePixels heat res cutOff maxH col ! (?o i) =
            toUint8Clamp (js_floor (channelOf (r col) (glowOf (normOf (heat ! i) cutOff maxH))))
        \<and> encodePixels heat res cutOff maxH col ! (?o i + 1) =
            toUint8Clamp (js_floor (channelOf (g col) (glowOf (normOf (heat ! i) cutOff maxH))))
        \<and> encodePixels heat res cutOff maxH col ! (?o i + 2) =
            toUint8Clamp (js_floor (channelOf (b col) (glowOf (normOf (heat ! i) cutOff maxH))))"
    if op: "\<not> js_lt (heat ! i) cutOff"
  proof -
    have "?o i \<in> ?B i" "?o i + 1 \<in> ?B i" "?o i + 2 \<in> ?B i" using op by simp_all
    from fb(3) [OF i this(1)] fb(3) [OF i this(2)] fb(3) [OF i this(3)]
    show ?thesis unfolding e by simp
  qed
qed
lemma normOf_Fin:
  assumes "c < m"
  shows "normOf (Fin v) (Fin c) (Fin m) = Fin (min 1 (max 0 ((v - c) / (m - c))))"
  using assms by (simp add: normOf_def js_sub_def js_gt_def Let_def min_def max_def)

lemma alphaOf_Fin: "alphaOf (Fin n) = Fin (77 + 178 * n)"
  by (simp add: alphaOf_def)

lemma glowOf_Fin: "glowOf (Fin n) = Fin (n * (6 / 10))"
  by (simp add: glowOf_def)

lemma channelOf_Fin: "channelOf base (Fin gl) = Fin (real base + (255 - real base) * gl)"
  by (simp add: channelOf_def)

lemma toUint8Clamp_floor:
  "toUint8Clamp (js_floor (Fin x)) = (if \<lfloor>x\<rfloor> \<le> 0 then 0 else if 255 \<le> \<lfloor>x\<rfloor> then 255 else nat \<lfloor>x\<rfloor>)"
  by (simp add: toUint8Clamp_def)

lemma toUint8Clamp_floor_byte:
  assumes "0 \<le> x" and "x \<le> 255"
  shows "toUint8Clamp (js_floor (Fin x)) = nat \<lfloor>x\<rfloor>"
proof -
  have n: "(if n \<le> 0 then 0 else if 255 \<le> n then 255 else nat n) = nat n"
    if "0 \<le> n" "n \<le> 255" for n :: int
    using that by auto
  have "0 \<le> \<lfloor>x\<rfloor>" using assms(1) by simp
  moreover have "\<lfloor>x\<rfloor> \<le> 255" using assms(2) by (simp add: floor_le_iff)
  ultimately show ?thesis unfolding toUint8Clamp_floor by (rule n)
qed

lemma hexDigit_le: "hexClass c \<Longrightarrow> hexDigit c \<le> 15"
  by (auto simp: hexClass_def hexDigit_def)

lemma parseHex_le:
  assumes "length h = 2" and "list_all hexClass h"
  shows "parseHex h \<le> 255"
proof -
  from assms(1) obtain c d where h: "h = [c, d]"
    by (cases h; cases "tl h") auto
  with assms(2) have "hexDigit c \<le> 15" "hexDigit d \<le> 15" by (simp_all add: hexDigit_le)
  then show ?thesis unfolding h by (simp add: parseHex_def)
qed

lemma matchGroups_groups:
  assumes "matchGroups s = Some (h1, h2, h3)"
  shows "parseHex h1 \<le> 255 \<and> parseHex h2 \<le> 255 \<and> parseHex h3 \<le> 255"
proof -
  from assms obtain s1 s2 where
    a: "matchGroup s = Some (h1, s1)" and b: "matchGroup s1 = Some (h2, s2)"
    and c: "matchGroup s2 = Some (h3, [])"
    by (auto simp: matchGroups_def split: option.splits if_splits)
  from matchGroup_Some [OF a] matchGroup_Some [OF b] matchGroup_Some [OF c]
  show ?thesis by (simp add: parseHex_le)
qed

lemma hexToRgb_le:
  "r (hexToRgb s) \<le> 255 \<and> g (hexToRgb s) \<le> 255 \<and> b (hexToRgb s) \<le> 255"
proof (cases "regexExec s")
  case None
  then show ?thesis by (simp add: hexToRgb_def)
next
  case (Some m)
  obtain h1 h2 h3 where m: "m = (h1, h2, h3)" by (cases m) auto
  from Some m have "\<exists>t. matchGroups t = Some (h1, h2, h3)"
    by (auto simp: regexExec_def split: list.splits if_splits option.splits)
  then show ?thesis using Some m matchGroups_groups by (auto simp: hexToRgb_def)
qed

lemma peak_channel:
  assumes "base \<le> 255"
  shows "toUint8Clamp (js_floor (channelOf base (glowOf (Fin 1)))) =
         nat \<lfloor>real base + (255 - real base) * (6 / 10)\<rfloor>"
proof -
  have le: "real base \<le> 255" using assms by simp
  have "0 \<le> real base + (255 - real base) * (6 / 10)" using le by simp
  moreover have "real base + (255 - real base) * (6 / 10) \<le> 255" using le by argo
  ultimately show ?thesis
    by (simp only: glowOf_Fin channelOf_Fin mult_1 toUint8Clamp_floor_byte)
qed

text \<open>
  Claim C5. With the cut-off strictly below the saturation reference, a cell below
  the cut-off gets alpha 0 in the emitted buffer, and a cell exactly at the
  saturation reference has the normalised density 1, alpha 255 and every colour
  channel equal to the floor of the base channel moved 60 percent towards 255.
\<close>

theorem encoder_cutoff_and_peak:
  assumes "length heat = res * res" and "i < res * res" and "heat ! i = Fin v" and "c < m"
  shows "(v < c \<longrightarrow>
            encodePixels heat res (Fin c) (Fin m) (hexToRgb color) ! (pixelOffset res i + 3) = 0)
       \<and> (v = m \<longrightarrow>
            normOf (Fin v) (Fin c) (Fin m) = Fin 1
          \<and> encodePixels heat res (Fin c) (Fin m) (hexToRgb color) ! (pixelOffset res i + 3) = 255
          \<and> encodePixels heat res (Fin c) (Fin m) (hexToRgb color) ! (pixelOffset res i) =
              nat \<lfloor>real (r (hexToRgb color)) + (255 - real (r (hexToRgb color))) * (6 / 10)\<rfloor>
          \<and> encodePixels heat res (Fin c) (Fin m) (hexToRgb color) ! (pixelOffset res i + 1) =
              nat \<lfloor>real (g (hexToRgb color)) + (255 - real (g (hexToRgb color))) * (6 / 10)\<rfloor>
          \<and> encodePixels heat res (Fin c) (Fin m) (hexToRgb color) ! (pixelOffset res i + 2) =
              nat \<lfloor>real (b (hexToRgb color)) + (255 - real (b (hexToRgb color))) * (6 / 10)\<rfloor>)"
proof (intro conjI impI)
  note cell = encodePixels_cell [OF assms(1,2), of "Fin c" "Fin m" "hexToRgb color"]
  show "encodePixels heat res (Fin c) (Fin m) (hexToRgb color) ! (pixelOffset res i + 3) = 0"
    if "v < c"
    using that cell(2) assms(3) by simp
  assume vm: "v = m"
  show n1: "normOf (Fin v) (Fin c) (Fin m) = Fin 1"
    using assms(4) vm by (simp add: normOf_Fin)
  have op: "\<not> js_lt (heat ! i) (Fin c)" using assms(3,4) vm by simp
  have nrm: "normOf (heat ! i) (Fin c) (Fin m) = Fin 1" using n1 assms(3) by simp
  show "encodePixels heat res (Fin c) (Fin m) (hexToRgb color) ! (pixelOffset res i + 3) = 255"
    using cell(2) op nrm by (simp add: alphaOf_Fin toUint8Clamp_def)
  show "encodePixels heat res (Fin c) (Fin m) (hexToRgb color) ! (pixelOffset res i) =
          nat \<lfloor>real (r (hexToRgb color)) + (255 - real (r (hexToRgb color))) * (6 / 10)\<rfloor>"
    using cell(3) [OF op] hexToRgb_le [of color] by (simp only: nrm peak_channel)
  show "encodePixels heat res (Fin c) (Fin m) (hexToRgb color) ! (pixelOffset res i + 1) =
          nat \<lfloor>real (g (hexToRgb color)) + (255 - real (g (hexToRgb color))) * (6 / 10)\<rfloor>"
    using cell(3) [OF op] hexToRgb_le [of color] by (simp only: nrm peak_channel)
  show "encodePixels heat res (Fin c) (Fin m) (hexToRgb color) ! (pixelOffset res i + 2) =
          nat \<lfloor>real (b (hexToRgb color)) + (255 - real (b (hexToRgb color))) * (6 / 10)\<rfloor>"
    using cell(3) [OF op] hexToRgb_le [of color] by (simp only: nrm peak_channel)
qed

text \<open>
  Claim C7. For a fixed cut-off strictly below the saturation reference, the alpha
  value and the white-mix factor do not decrease when the cell value grows, for
  cell values at or above the cut-off.
\<close>

theorem alpha_glow_monotone:
  assumes "c < m" and "c \<le> v1" and "v1 \<le> v2"
  shows "js_le (alphaOf (normOf (Fin v1) (Fin c) (Fin m))) (alphaOf (normOf (Fin v2) (Fin c) (Fin m)))
       \<and> js_le (glowOf (normOf (Fin v1) (Fin c) (Fin m))) (glowOf (normOf (Fin v2) (Fin c) (Fin m)))"
proof -
  have "(v1 - c) / (m - c) \<le> (v2 - c) / (m - c)"
    using assms by (simp add: divide_right_mono)
  then have "min 1 (max 0 ((v1 - c) / (m - c))) \<le> min 1 (max 0 ((v2 - c) / (m - c)))"
    by (simp add: min_def max_def)
  then show ?thesis
    by (simp add: normOf_Fin [OF assms(1)] alphaOf_Fin glowOf_Fin)
qed

theorem alpha_glow_monotone_witness:
  "js_le (alphaOf (normOf (Fin 2) (Fin 1) (Fin 3))) (alphaOf (normOf (Fin 3) (Fin 1) (Fin 3)))
 \<and> js_le (glowOf (normOf (Fin 2) (Fin 1) (Fin 3))) (glowOf (normOf (Fin 3) (Fin 1) (Fin 3)))
 \<and> alphaOf (normOf (Fin 2) (Fin 1) (Fin 3)) = Fin 166
 \<and> alphaOf (normOf (Fin 3) (Fin 1) (Fin 3)) = Fin 255"
  using alpha_glow_monotone [of 1 3 2 3]
  by (simp add: normOf_def alphaOf_def js_sub_def js_gt_def)
theorem encoder_cutoff_and_peak_witness:
  "encodePixels [Fin 0, Fin 3, Fin 1, Fin 2] 2 (Fin 1) (Fin 3) (hexToRgb (str ''#0057A4'')) ! 11 = 0
 \<and> encodePixels [Fin 0, Fin 3, Fin 1, Fin 2] 2 (Fin 1) (Fin 3) (hexToRgb (str ''#0057A4'')) ! 15 = 255
 \<and> encodePixels [Fin 0, Fin 3, Fin 1, Fin 2] 2 (Fin 1) (Fin 3) (hexToRgb (str ''#0057A4'')) ! 12 = 153
 \<and> encodePixels [Fin 0, Fin 3, Fin 1, Fin 2] 2 (Fin 1) (Fin 3) (hexToRgb (str ''#0057A4'')) ! 13 = 187
 \<and> encodePixels [Fin 0, Fin 3, Fin 1, Fin 2] 2 (Fin 1) (Fin 3) (hexToRgb (str ''#0057A4'')) ! 14 = 218"
proof -
  have col: "hexToRgb (str ''#0057A4'') = \<lparr>r = 0, g = 87, b = 164\<rparr>"
    by (simp add: hexToRgb_def regexExec_def matchGroups_def str_def hexClass_def parseHex_def
          hexDigit_def)
  have o: "pixelOffset 2 0 = 8" "pixelOffset 2 (Suc 0) = 12"
    by (simp_all add: pixelOffset_def)
  have f: "nat \<lfloor>(0::real) + (255 - 0) * (6 / 10)\<rfloor> = 153"
    "nat \<lfloor>(87::real) + (255 - 87) * (6 / 10)\<rfloor> = 187"
    "nat \<lfloor>(164::real) + (255 - 164) * (6 / 10)\<rfloor> = 218"
    by simp_all
  show ?thesis
    using encoder_cutoff_and_peak [of "[Fin 0, Fin 3, Fin 1, Fin 2]" 2 0 0 1 3 "str ''#0057A4''"]
      encoder_cutoff_and_peak [of "[Fin 0, Fin 3, Fin 1, Fin 2]" 2 1 3 1 3 "str ''#0057A4''"]
    by (simp add: col o f)
qed

text \<open>
  The encoder under a threshold ratio of 1, on a smoothed grid of side 2. The cut-off
  equals the saturation reference; the quotient of the normalisation is then 0 / 0
  for a cell at the cut-off, the two clamps let \<^verbatim>\<open>NaN\<close> through, and the pixel of
  that cell is stored with alpha 0, while the cell above the reference saturates.
\<close>

theorem normOf_zero_width_range:
  "percentileMax [Fin 0, Fin 3, Fin 1, Fin 2] = Fin 2
 \<and> cutOffOf (percentileMax [Fin 0, Fin 3, Fin 1, Fin 2]) 1 = Fin 2
 \<and> normOf (Fin 2) (Fin 2) (Fin 2) = NaN
 \<and> normOf (Fin 3) (Fin 2) (Fin 2) = Fin 1
 \<and> encodePixels [Fin 0, Fin 3, Fin 1, Fin 2] 2 (Fin 2) (Fin 2) \<lparr>r = 0, g = 87, b = 164\<rparr>
     = [0, 0, 0, 0, 0, 0, 0, 0, 0, 0, 0, 0, 153, 187, 218, 255]"
  by code_simp

section \<open>Properties of the adaptive threshold\<close>

lemma filter_positive_Fin:
  "filter (\<lambda>v. js_gt v (Fin 0)) (map Fin hs) = map Fin (filter (\<lambda>h. 0 < h) hs)"
  by (induction hs) (simp_all add: js_gt_def)

lemma insertSorted_Fin: "insertSorted (Fin v) (map Fin ws) = map Fin (insort v ws)"
  by (induction ws) (auto simp: js_gt_def js_sub_def)

lemma sortAscending_Fin: "sortAscending (map Fin ps) = map Fin (sort ps)"
  by (induction ps) (simp_all add: sortAscending_def sort_key_def insertSorted_Fin)

lemma percentile_index_less:
  assumes "0 < n"
  shows "nat \<lfloor>(real n - 1) * (995 / 1000)\<rfloor> < n"
proof -
  have "1 \<le> real n" using assms by simp
  then have "(real n - 1) * (995 / 1000) < real n" by argo
  then have "\<lfloor>(real n - 1) * (995 / 1000)\<rfloor> < int n"
    by (simp add: floor_less_iff)
  then show ?thesis using assms by linarith
qed

lemma percentileMax_Fin: "percentileMax (map Fin hs) = Fin (specMaxDensity hs)"
proof (cases "filter (\<lambda>h. 0 < h) hs = []")
  case True
  then show ?thesis
    by (simp add: percentileMax_def specMaxDensity_def filter_positive_Fin)
next
  case False
  let ?ps = "filter (\<lambda>h. 0 < h) hs"
  have "nat \<lfloor>(real (length ?ps) - 1) * (995 / 1000)\<rfloor> < length (sort ?ps)"
    using False percentile_index_less [of "length ?ps"] by simp
  then show ?thesis
    using False
    by (simp add: percentileMax_def specMaxDensity_def filter_positive_Fin sortAscending_Fin Let_def)
qed

lemma specMaxDensity_nonneg: "0 \<le> specMaxDensity hs"
proof (cases "filter (\<lambda>h. 0 < h) hs = []")
  case True
  then show ?thesis by (simp add: specMaxDensity_def)
next
  case False
  let ?ps = "filter (\<lambda>h. 0 < h) hs"
  let ?k = "nat \<lfloor>(real (length ?ps) - 1) * (995 / 1000)\<rfloor>"
  have "?k < length (sort ?ps)"
    using False percentile_index_less [of "length ?ps"] by simp
  then have "sort ?ps ! ?k \<in> set (sort ?ps)" by (rule nth_mem)
  then have "0 < sort ?ps ! ?k" by simp
  then show ?thesis using False by (simp add: specMaxDensity_def Let_def)
qed

lemma specMaxDensity_no_positive:
  "\<forall>h \<in> set hs. \<not> 0 < h \<Longrightarrow> specMaxDensity hs = 0"
  by (simp add: specMaxDensity_def filter_empty_conv)

text \<open>
  A grid without a positive cell: the cut-off and the reference are both zero. A
  negative cell is below the cut-off; a zero cell is normalised to 0 / 0, and
  every byte computed from \<^verbatim>\<open>NaN\<close> is stored as 0.
\<close>

lemma encodeCell_zero_grid:
  assumes "i < res * res" and "length hs = res * res" and "\<forall>h \<in> set hs. \<not> 0 < h"
  shows "encodeCell (map Fin hs) res (Fin 0) (Fin 0) col i (replicate (res * res * 4) 0) =
         replicate (res * res * 4) 0"
proof -
  have "hs ! i \<in> set hs" using assms(1,2) by simp
  then have le: "hs ! i \<le> 0" using assms(3) by auto
  have get: "ta_get (map Fin hs) (int i) = Fin (hs ! i)"
    using assms(1,2) by (simp add: ta_get_nat)
  have z: "(replicate n (0::nat))[k := 0] = replicate n 0" for n k
    by (induction n arbitrary: k) (auto split: nat.split)
  show ?thesis
  proof (cases "hs ! i < 0")
    case True
    then show ?thesis
      using encodeCell_eq [OF assms(1), of "replicate (res * res * 4) 0" "map Fin hs" "Fin 0" "Fin 0" col]
      by (simp add: get z)
  next
    case False
    then have "hs ! i = 0" using le by simp
    then have n: "normOf (Fin (hs ! i)) (Fin 0) (Fin 0) = NaN"
      by (simp add: normOf_def js_sub_def js_gt_def)
    show ?thesis
      using False encodeCell_eq [OF assms(1), of "replicate (res * res * 4) 0" "map Fin hs" "Fin 0" "Fin 0" col]
      by (simp add: get n glowOf_def alphaOf_def channelOf_def toUint8Clamp_def z)
  qed
qed

lemma encodePixels_zero_grid:
  assumes "length hs = res * res" and "\<forall>h \<in> set hs. \<not> 0 < h"
  shows "encodePixels (map Fin hs) res (Fin 0) (Fin 0) col = replicate (res * res * 4) 0"
proof -
  have "n \<le> res * res \<Longrightarrow>
        fold (encodeCell (map Fin hs) res (Fin 0) (Fin 0) col) [0..<n] (replicate (res * res * 4) 0) =
        replicate (res * res * 4) 0" for n
    by (induction n) (simp_all add: encodeCell_zero_grid [OF _ assms])
  then show ?thesis by (simp add: encodePixels_def assms(1))
qed

text \<open>
  Claim C4. For a grid of finite cells and a threshold ratio between 0 and 1, the
  saturation reference is the positive cells' value at index
  \<open>floor ((n - 1) * 0.995)\<close> of their ascending order (zero when there is none), the
  cut-off is the reference times the ratio and does not exceed it, and on a grid
  without a positive cell both are zero and every pixel of the emitted buffer has
  alpha 0.
\<close>

theorem adaptive_threshold_cutoff_le_max:
  assumes "0 \<le> t" and "t \<le> 1"
  shows "percentileMax (map Fin hs) = Fin (specMaxDensity hs)
       \<and> cutOffOf (percentileMax (map Fin hs)) t = Fin (specMaxDensity hs * t)
       \<and> js_le (cutOffOf (percentileMax (map Fin hs)) t) (percentileMax (map Fin hs))
       \<and> ((\<forall>h \<in> set hs. \<not> 0 < h) \<and> length hs = res * res \<longrightarrow>
             percentileMax (map Fin hs) = Fin 0
           \<and> cutOffOf (percentileMax (map Fin hs)) t = Fin 0
           \<and> (\<forall>p < res * res.
                 encodePixels (map Fin hs) res (cutOffOf (percentileMax (map Fin hs)) t)
                   (percentileMax (map Fin hs)) col ! (4 * p + 3) = 0))"
proof -
  have "specMaxDensity hs * t \<le> specMaxDensity hs"
    using assms specMaxDensity_nonneg [of hs] by (simp add: mult_left_le)
  then show ?thesis
    by (simp add: percentileMax_Fin cutOffOf_def specMaxDensity_no_positive encodePixels_zero_grid)
qed

theorem adaptive_threshold_cutoff_le_max_witness:
  "percentileMax (map Fin [0, 3, 1, 2]) = Fin 2
 \<and> cutOffOf (percentileMax (map Fin [0, 3, 1, 2])) (3 / 10) = Fin (6 / 10)
 \<and> js_le (cutOffOf (percentileMax (map Fin [0, 3, 1, 2])) (3 / 10)) (percentileMax (map Fin [0, 3, 1, 2]))
 \<and> percentileMax (map Fin [0, 0, 0, 0]) = Fin 0
 \<and> cutOffOf (percentileMax (map Fin [0, 0, 0, 0])) (3 / 10) = Fin 0
 \<and> encodePixels (map Fin [0, 0, 0, 0]) 2 (cutOffOf (percentileMax (map Fin [0, 0, 0, 0])) (3 / 10))
      (percentileMax (map Fin [0, 0, 0, 0])) \<lparr>r = 0, g = 87, b = 164\<rparr> ! 15 = 0"
proof -
  have s: "specMaxDensity [0, 3, 1, 2] = 2" "specMaxDensity [0, 0, 0, 0] = 0"
    by (simp_all add: specMaxDensity_def)
  have a: "percentileMax (map Fin [0, 3, 1, 2]) = Fin 2
     \<and> cutOffOf (percentileMax (map Fin [0, 3, 1, 2])) (3 / 10) = Fin (6 / 10)
     \<and> js_le (cutOffOf (percentileMax (map Fin [0, 3, 1, 2])) (3 / 10)) (percentileMax (map Fin [0, 3, 1, 2]))"
    using adaptive_threshold_cutoff_le_max [of "3 / 10" "[0, 3, 1, 2]" 2 "\<lparr>r = 0, g = 87, b = 164\<rparr>"]
    by (simp add: s cutOffOf_def)
  have z: "percentileMax (map Fin [0, 0, 0, 0]) = Fin 0
     \<and> cutOffOf (percentileMax (map Fin [0, 0, 0, 0])) (3 / 10) = Fin 0
     \<and> (\<forall>p < 4.
           encodePixels (map Fin [0, 0, 0, 0]) 2 (cutOffOf (percentileMax (map Fin [0, 0, 0, 0])) (3 / 10))
             (percentileMax (map Fin [0, 0, 0, 0])) \<lparr>r = 0, g = 87, b = 164\<rparr> ! (4 * p + 3) = 0)"
    using adaptive_threshold_cutoff_le_max [of "3 / 10" "[0, 0, 0, 0]" 2 "\<lparr>r = 0, g = 87, b = 164\<rparr>"]
    by (auto simp: s)
  from z [THEN conjunct2, THEN conjunct2, rule_format, of 3] a z show ?thesis by auto
qed

section \<open>Properties of the density grid\<close>




















section \<open>Properties of the archive\<close>














section \<open>Properties of the kernel\<close>

lemma fold_pair_split:
  "fold (\<lambda>i (a, c). (F i a, G i c)) xs (a0, c0) = (fold F xs a0, fold G xs c0)"
  by (induction xs arbitrary: a0 c0) simp_all

lemma fold_upt_update:
  assumes "n \<le> length xs"
  shows "fold (\<lambda>i ys. ta_set ys (int i) (f i (ta_get ys (int i)))) [0..<n] xs =
         map (\<lambda>i. f i (xs ! i)) [0..<n] @ drop n xs"
  using assms
proof (induction n)
  case 0
  then show ?case by simp
next
  case (Suc n)
  let ?p = "map (\<lambda>i. f i (xs ! i)) [0..<n] @ drop n xs"
  have n: "n < length xs" using Suc.prems by simp
  have ih: "fold (\<lambda>i ys. ta_set ys (int i) (f i (ta_get ys (int i)))) [0..<n] xs = ?p"
    using Suc by simp
  have len: "length ?p = length xs" using n by simp
  have at: "?p ! n = xs ! n" using n by (simp add: nth_append)
  have d: "drop n xs = xs ! n # drop (Suc n) xs" using n by (simp add: Cons_nth_drop_Suc)
  have "ta_set ?p (int n) (f n (ta_get ?p (int n))) = ?p[n := f n (xs ! n)]"
    using n len at by (simp add: ta_set_nat ta_get_nat del: length_append length_map length_drop)
  also have "\<dots> = map (\<lambda>i. f i (xs ! i)) [0..<n] @ (f n (xs ! n) # drop (Suc n) xs)"
    by (simp add: list_update_append d)
  finally show ?case by (simp add: ih)
qed

lemma fold_js_add_Fin:
  "fold (\<lambda>i total. js_add total (Fin (f i))) ks (Fin t) = Fin (t + sum_list (map f ks))"
  by (induction ks arbitrary: t) (simp_all add: add.assoc)

lemma kernelValue_Fin:
  assumes "sigma \<noteq> 0"
  shows "kernelValue sigma x = Fin (exp (- (of_int (x * x)) / (2 * sigma * sigma)))"
  using assms by (simp add: kernelValue_def)

lemma kernel_size:
  assumes "0 < sigma"
  shows "0 < \<lceil>sigma * 3\<rceil>"
    and "nat (\<lceil>sigma * 3\<rceil> * 2 + 1) = 2 * nat \<lceil>3 * sigma\<rceil> + 1"
    and "(\<lceil>sigma * 3\<rceil> * 2 + 1) div 2 = int (nat \<lceil>3 * sigma\<rceil>)"
proof -
  show p: "0 < \<lceil>sigma * 3\<rceil>" using assms by (simp add: less_ceiling_iff)
  have c: "\<lceil>sigma * 3\<rceil> = \<lceil>3 * sigma\<rceil>" by (simp add: mult.commute)
  show "nat (\<lceil>sigma * 3\<rceil> * 2 + 1) = 2 * nat \<lceil>3 * sigma\<rceil> + 1"
    using p unfolding c by (simp add: nat_add_distrib nat_mult_distrib)
  show "(\<lceil>sigma * 3\<rceil> * 2 + 1) div 2 = int (nat \<lceil>3 * sigma\<rceil>)"
    using p unfolding c by simp
qed
lemma kernel_exponent:
  "- real_of_int ((int i - int half) * (int i - int half)) / (2 * sigma * sigma) =
   - ((real i - real half)\<^sup>2) / (2 * sigma\<^sup>2)"
  by (simp add: power2_eq_square)

lemma sum_list_exp_pos:
  assumes "xs \<noteq> []"
  shows "0 < sum_list (map (\<lambda>i. exp (f i :: real)) xs)"
proof -
  from assms obtain a ys where xs: "xs = a # ys" by (cases xs) auto
  have "0 \<le> sum_list (map (\<lambda>i. exp (f i)) ys)" by (rule sum_list_nonneg) auto
  moreover have "0 < exp (f a)" by simp
  ultimately show ?thesis unfolding xs by (simp add: add_pos_nonneg)
qed

text \<open>
  The two loops of the kernel for a radius other than zero: the first leaves the
  values and their sum, the second the values divided by the sum.
\<close>

lemma kernel_loops:
  fixes sigma :: real and half n :: nat
  defines "e \<equiv> \<lambda>i. exp (- ((real i - real half)\<^sup>2) / (2 * sigma\<^sup>2))"
  assumes nz: "sigma \<noteq> 0" and n: "0 < n"
  shows "(case fold (\<lambda>i (ys, total).
                        (let x = int i - int half; val = kernelValue sigma x
                         in (ta_set ys (int i) val, js_add total val)))
                     [0..<n] (replicate n (Fin 0), Fin 0) of
                 (ys, tot) \<Rightarrow>
                   Inr (fold (\<lambda>i ys. ta_set ys (int i) (js_div (ta_get ys (int i)) tot)) [0..<n] ys))
               = (Inr (map (\<lambda>i. Fin (e i / sum_list (map e [0..<n]))) [0..<n]) :: error + jsnum list)"
proof -
  let ?S = "sum_list (map e [0..<n])"
  have kv: "kernelValue sigma (int i - int half) = Fin (e i)" for i
    unfolding e_def by (simp only: kernelValue_Fin [OF nz] kernel_exponent)
  have fill: "fold (\<lambda>i ys. ta_set ys (int i) (Fin (e i))) [0..<n] (replicate n (Fin 0))
              = map (\<lambda>i. Fin (e i)) [0..<n]"
    using fold_upt_update [of n "replicate n (Fin 0)" "\<lambda>i v. Fin (e i)"] by simp
  have total: "fold (\<lambda>i total. js_add total (Fin (e i))) [0..<n] (Fin 0) = Fin ?S"
    using fold_js_add_Fin [of e "[0..<n]" 0] by simp
  have S: "0 < ?S" unfolding e_def by (rule sum_list_exp_pos) (use n in simp)
  have "fold (\<lambda>i ys. ta_set ys (int i) (js_div (ta_get ys (int i)) (Fin ?S))) [0..<n]
                (map (\<lambda>i. Fin (e i)) [0..<n])
          = map (\<lambda>i. js_div (map (\<lambda>i. Fin (e i)) [0..<n] ! i) (Fin ?S)) [0..<n]"
    using fold_upt_update [of n "map (\<lambda>i. Fin (e i)) [0..<n]" "\<lambda>i v. js_div v (Fin ?S)"]
    by simp
  also have "\<dots> = map (\<lambda>i. Fin (e i / ?S)) [0..<n]"
    using S by (intro map_cong) simp_all
  finally have norm: "fold (\<lambda>i ys. ta_set ys (int i) (js_div (ta_get ys (int i)) (Fin ?S))) [0..<n]
                (map (\<lambda>i. Fin (e i)) [0..<n]) = map (\<lambda>i. Fin (e i / ?S)) [0..<n]" .
  show ?thesis
    by (simp only: Let_def kv fold_pair_split fill total norm prod.case)
qed

text \<open>
  For a positive radius the kernel of the code is the kernel of the specification.
\<close>

lemma createGaussianKernel_spec:
  assumes "0 < sigma"
  shows "createGaussianKernel sigma = Inr (map Fin (gaussWeights sigma))"
proof -
  note sz = kernel_size [OF assms]
  have nz: "sigma \<noteq> 0" using assms by simp
  have gw: "map Fin (gaussWeights sigma) =
      map (\<lambda>i. Fin (exp (- ((real i - real (nat \<lceil>3 * sigma\<rceil>))\<^sup>2) / (2 * sigma\<^sup>2))
                    / sum_list (map (\<lambda>i. exp (- ((real i - real (nat \<lceil>3 * sigma\<rceil>))\<^sup>2) / (2 * sigma\<^sup>2)))
                                 [0..<2 * nat \<lceil>3 * sigma\<rceil> + 1])))
          [0..<2 * nat \<lceil>3 * sigma\<rceil> + 1]"
    unfolding gaussWeights_def Let_def map_map comp_def ..
  have "\<not> \<lceil>sigma * 3\<rceil> * 2 + 1 < 0" using sz(1) by linarith
  then have neg: "(\<lceil>sigma * 3\<rceil> * 2 + 1 < 0) = False" by blast
  have pos: "0 < 2 * nat \<lceil>3 * sigma\<rceil> + 1" by simp
  show ?thesis
    unfolding createGaussianKernel_def Let_def sz(2,3) neg if_False gw
    by (rule kernel_loops [OF nz pos, unfolded Let_def])
qed

lemma gaussWeights_length: "length (gaussWeights sigma) = 2 * nat \<lceil>3 * sigma\<rceil> + 1"
  by (simp add: gaussWeights_def Let_def)


lemma sum_list_divide:
  fixes c :: real
  shows "sum_list (map (\<lambda>e. e / c) es) = sum_list es / c"
  by (induction es) (simp_all add: add_divide_distrib)

lemma gaussWeights_sum: "sum_list (gaussWeights sigma) = 1"
proof -
  define es where
    "es = map (\<lambda>i. exp (- ((real i - real (nat \<lceil>3 * sigma\<rceil>))\<^sup>2) / (2 * sigma\<^sup>2)))
            [0..<2 * nat \<lceil>3 * sigma\<rceil> + 1]"
  have S: "0 < sum_list es" unfolding es_def by (rule sum_list_exp_pos) simp
  have "gaussWeights sigma = map (\<lambda>e. e / sum_list es) es"
    unfolding gaussWeights_def Let_def es_def ..
  then show ?thesis using S by (simp only: sum_list_divide) simp
qed

section \<open>Properties of the two passes\<close>

lemma clampIndex_range:
  assumes "0 < n"
  shows "0 \<le> clampIndex n p" and "clampIndex n p < n"
  using assms by (simp_all add: clampIndex_def)

lemma fold_terms_Fin:
  assumes "\<And>k. k < n \<Longrightarrow> t k = Fin (f k)"
  shows "fold (\<lambda>k total. js_add total (t k)) [0..<n] (Fin 0) = Fin (\<Sum>k<n. f k)"
proof -
  have "fold (\<lambda>k total. js_add total (t k)) [0..<n] (Fin 0) =
        fold (\<lambda>k total. js_add total (Fin (f k))) [0..<n] (Fin 0)"
    by (rule fold_cong) (simp_all add: assms)
  also have "\<dots> = Fin (sum_list (map f [0..<n]))"
    using fold_js_add_Fin [of f "[0..<n]" 0] by simp
  also have "sum_list (map f [0..<n]) = (\<Sum>k<n. f k)"
    by (simp add: interv_sum_list_conv_sum_set_nat atLeast0LessThan)
  finally show ?thesis .
qed

lemma weightedSum_Fin:
  assumes "\<And>k. k < length kr \<Longrightarrow> 0 \<le> sample k \<and> sample k < int (length d)"
  shows "weightedSum (map Fin d) (map Fin kr) sample = Fin (\<Sum>k<length kr. d ! nat (sample k) * kr ! k)"
proof -
  have "js_mul (ta_get (map Fin d) (sample k)) (ta_get (map Fin kr) (int k)) =
        Fin (d ! nat (sample k) * kr ! k)" if "k < length kr" for k
  proof -
    have "nat (sample k) < length d" using assms [OF that] by linarith
    then show ?thesis using assms [OF that] that by (simp add: ta_get_def)
  qed
  then show ?thesis
    unfolding weightedSum_def length_map by (rule fold_terms_Fin)
qed

text \<open>
  Two nested loops that write every position \<open>pos a b\<close> once: afterwards the array
  holds at \<open>pos a b\<close> the value written there.
\<close>

lemma fold_grid_fill:
  fixes T :: "nat \<Rightarrow> nat \<Rightarrow> 'a" and pos :: "nat \<Rightarrow> nat \<Rightarrow> nat"
  assumes len: "length xs = L"
    and inj: "\<forall>a<A. \<forall>b<B. \<forall>a'<A. \<forall>b'<B. pos a b = pos a' b' \<longrightarrow> a = a' \<and> b = b'"
    and rng: "\<forall>a<A. \<forall>b<B. pos a b < L"
  shows "length (fold (\<lambda>a out. fold (\<lambda>b out. ta_set out (int (pos a b)) (T a b)) [0..<B] out) [0..<A] xs) = L"
    and "\<And>a b. a < A \<Longrightarrow> b < B \<Longrightarrow>
          fold (\<lambda>a out. fold (\<lambda>b out. ta_set out (int (pos a b)) (T a b)) [0..<B] out) [0..<A] xs
            ! pos a b = T a b"
proof -
  let ?inner = "\<lambda>a out. fold (\<lambda>b out. ta_set out (int (pos a b)) (T a b)) [0..<B] out"
  have inner: "length (?inner a out) = L
      \<and> (\<forall>j. (\<forall>b<B. j \<notin> {pos a b}) \<longrightarrow> ?inner a out ! j = out ! j)
      \<and> (\<forall>b j. b < B \<longrightarrow> j \<in> {pos a b} \<longrightarrow> ?inner a out ! j = T a b)"
    if a: "a < A" and o: "length out = L" for a and out :: "'a list"
  proof -
    have l: "\<forall>b (ys :: 'a list). b < B \<longrightarrow> length ys = L \<longrightarrow> length (ta_set ys (int (pos a b)) (T a b)) = L"
      by (simp add: ta_set_def)
    have k: "\<forall>b (ys :: 'a list) j. b < B \<longrightarrow> length ys = L \<longrightarrow> j \<notin> {pos a b}
                \<longrightarrow> ta_set ys (int (pos a b)) (T a b) ! j = ys ! j"
      by (simp add: ta_set_def)
    have p: "\<forall>b (ys :: 'a list) j. b < B \<longrightarrow> length ys = L \<longrightarrow> j \<in> {pos a b}
                \<longrightarrow> ta_set ys (int (pos a b)) (T a b) ! j = T a b"
      using rng a by (simp add: ta_set_def)
    have d: "\<forall>b b'. b < B \<longrightarrow> b' < B \<longrightarrow> b \<noteq> b' \<longrightarrow> {pos a b} \<inter> {pos a b'} = {}"
      using inj a by auto
    from fold_blocks [of B L "\<lambda>b ys. ta_set ys (int (pos a b)) (T a b)" "\<lambda>b. {pos a b}" "\<lambda>b j. T a b",
        OF l k p d o]
    show ?thesis by blast
  qed
  let ?Bs = "\<lambda>a. pos a ` {..<B}"
  let ?v = "\<lambda>a j. T a (THE b. b < B \<and> pos a b = j)"
  have the: "(THE b'. b' < B \<and> pos a b' = pos a b) = b" if "a < A" "b < B" for a b
    using inj that by (intro the_equality) auto
  have l: "\<forall>a (ys :: 'a list). a < A \<longrightarrow> length ys = L \<longrightarrow> length (?inner a ys) = L"
    using inner by blast
  have k: "\<forall>a (ys :: 'a list) j. a < A \<longrightarrow> length ys = L \<longrightarrow> j \<notin> ?Bs a \<longrightarrow> ?inner a ys ! j = ys ! j"
  proof (intro allI impI)
    fix a and ys :: "'a list" and j
    assume "a < A" "length ys = L" "j \<notin> ?Bs a"
    moreover from this(3) have "\<forall>b<B. j \<notin> {pos a b}" by auto
    ultimately show "?inner a ys ! j = ys ! j" using inner by blast
  qed
  have p: "\<forall>a (ys :: 'a list) j. a < A \<longrightarrow> length ys = L \<longrightarrow> j \<in> ?Bs a \<longrightarrow> ?inner a ys ! j = ?v a j"
  proof (intro allI impI)
    fix a and ys :: "'a list" and j
    assume a: "a < A" and ys: "length ys = L" and "j \<in> ?Bs a"
    then obtain b where b: "b < B" "j = pos a b" by auto
    have "?inner a ys ! pos a b = T a b" using inner [OF a ys] b(1) by blast
    then show "?inner a ys ! j = ?v a j" unfolding b(2) the [OF a b(1)] .
  qed
  have d: "\<forall>a a'. a < A \<longrightarrow> a' < A \<longrightarrow> a \<noteq> a' \<longrightarrow> ?Bs a \<inter> ?Bs a' = {}"
    using inj by fastforce
  note fb = fold_blocks [of A L ?inner ?Bs ?v, OF l k p d len]
  show "length (fold ?inner [0..<A] xs) = L" by (rule fb(1))
  show "fold ?inner [0..<A] xs ! pos a b = T a b" if "a < A" "b < B" for a b
  proof -
    have "pos a b \<in> ?Bs a" using that(2) by simp
    from fb(3) [OF that(1) this] show ?thesis unfolding the [OF that] .
  qed
qed
lemma grid_pos_inj:
  fixes w :: nat
  assumes "x < w" and "x' < w" and "y * w + x = y' * w + x'"
  shows "y = y' \<and> x = x'"
proof -
  have "(y * w + x) div w = (y' * w + x') div w" "(y * w + x) mod w = (y' * w + x') mod w"
    using assms(3) by simp_all
  then show ?thesis using assms(1,2) by simp
qed

lemma grid_pos_less:
  fixes w h :: nat
  assumes "x < w" and "y < h"
  shows "y * w + x < w * h"
proof -
  have "y * w + x < y * w + w" using assms(1) by simp
  also have "\<dots> = Suc y * w" by simp
  also have "\<dots> \<le> h * w" by (rule mult_le_mono1) (use assms(2) in simp)
  finally show ?thesis by (simp add: mult.commute)
qed

text \<open>The horizontal and the vertical pass, cell by cell.\<close>

lemma convolveH_cells:
  assumes "length data = w * h"
  shows "length (convolveH data w h kern) = w * h"
    and "\<And>y x. y < h \<Longrightarrow> x < w \<Longrightarrow>
          convolveH data w h kern ! (y * w + x) =
          weightedSum data kern
            (\<lambda>k. int y * int w + clampIndex (int w) (int x + (int k - int (length kern) div 2)))"
proof -
  let ?T = "\<lambda>y x. weightedSum data kern
            (\<lambda>k. int y * int w + clampIndex (int w) (int x + (int k - int (length kern) div 2)))"
  let ?pos = "\<lambda>y x. y * w + x"
  have eq: "convolveH data w h kern =
      fold (\<lambda>a out. fold (\<lambda>b out. ta_set out (int (?pos a b)) (?T a b)) [0..<w] out) [0..<h]
        (replicate (w * h) (Fin 0))"
    by (simp add: convolveH_def Let_def assms)
  have len: "length (replicate (w * h) (Fin 0)) = w * h" by simp
  have inj: "\<forall>a<h. \<forall>b<w. \<forall>a'<h. \<forall>b'<w. ?pos a b = ?pos a' b' \<longrightarrow> a = a' \<and> b = b'"
    using grid_pos_inj by blast
  have rng: "\<forall>a<h. \<forall>b<w. ?pos a b < w * h"
    using grid_pos_less by blast
  note g = fold_grid_fill [where xs = "replicate (w * h) (Fin 0)" and L = "w * h" and A = h and B = w
      and pos = ?pos and T = ?T, OF len inj rng]
  show "length (convolveH data w h kern) = w * h" unfolding eq by (rule g(1))
  show "convolveH data w h kern ! (y * w + x) = ?T y x" if "y < h" "x < w" for y x
    unfolding eq using that by (rule g(2))
qed

lemma convolveV_cells:
  assumes "length data = w * h"
  shows "length (convolveV data w h kern) = w * h"
    and "\<And>y x. y < h \<Longrightarrow> x < w \<Longrightarrow>
          convolveV data w h kern ! (y * w + x) =
          weightedSum data kern
            (\<lambda>k. clampIndex (int h) (int y + (int k - int (length kern) div 2)) * int w + int x)"
proof -
  let ?T = "\<lambda>x y. weightedSum data kern
            (\<lambda>k. clampIndex (int h) (int y + (int k - int (length kern) div 2)) * int w + int x)"
  let ?pos = "\<lambda>x y. y * w + x"
  have eq: "convolveV data w h kern =
      fold (\<lambda>a out. fold (\<lambda>b out. ta_set out (int (?pos a b)) (?T a b)) [0..<h] out) [0..<w]
        (replicate (w * h) (Fin 0))"
    by (simp add: convolveV_def Let_def assms)
  have len: "length (replicate (w * h) (Fin 0)) = w * h" by simp
  have inj: "\<forall>a<w. \<forall>b<h. \<forall>a'<w. \<forall>b'<h. ?pos a b = ?pos a' b' \<longrightarrow> a = a' \<and> b = b'"
    using grid_pos_inj by blast
  have rng: "\<forall>a<w. \<forall>b<h. ?pos a b < w * h"
    using grid_pos_less by blast
  note g = fold_grid_fill [where xs = "replicate (w * h) (Fin 0)" and L = "w * h" and A = w and B = h
      and pos = ?pos and T = ?T, OF len inj rng]
  show "length (convolveV data w h kern) = w * h" unfolding eq by (rule g(1))
  show "convolveV data w h kern ! (y * w + x) = ?T x y" if "y < h" "x < w" for y x
    unfolding eq using that(2,1) by (rule g(2))
qed

text \<open>
  On a grid and a kernel of finite numbers every read is inside the arrays, and the
  passes are the sums of the specification.
\<close>

lemma convolveH_Fin:
  assumes "length d = w * h"
  shows "convolveH (map Fin d) w h (map Fin kr) = map Fin (specConvH d w h kr)"
proof (rule nth_equalityI)
  have l: "length (map Fin d) = w * h" using assms by simp
  show "length (convolveH (map Fin d) w h (map Fin kr)) = length (map Fin (specConvH d w h kr))"
    using convolveH_cells(1) [OF l] by (simp add: specConvH_def)
  fix i
  assume "i < length (convolveH (map Fin d) w h (map Fin kr))"
  then have i: "i < w * h" using convolveH_cells(1) [OF l] by simp
  then have w: "0 < w" by (cases w) auto
  have x: "i mod w < w" using w by simp
  have y: "i div w < h" using i w by (simp add: less_mult_imp_div_less mult.commute)
  have split: "i = i div w * w + i mod w" by simp
  let ?s = "\<lambda>k. int (i div w) * int w + clampIndex (int w) (int (i mod w) + (int k - int (length kr) div 2))"
  have rng: "0 \<le> ?s k \<and> ?s k < int (length d)" for k
  proof -
    let ?c = "clampIndex (int w) (int (i mod w) + (int k - int (length kr) div 2))"
    have c: "0 \<le> ?c" "?c < int w" using clampIndex_range [of "int w"] w by simp_all
    then have "nat ?c < w" by linarith
    from grid_pos_less [OF this y] have "int (i div w * w + nat ?c) < int (w * h)"
      by (simp only: of_nat_less_iff)
    moreover have "int (i div w * w + nat ?c) = int (i div w) * int w + ?c" using c(1) by simp
    moreover have "0 \<le> int (i div w) * int w" by simp
    ultimately show ?thesis using c(1) assms by (simp only: add_nonneg_nonneg)
  qed
  have nat_s: "nat (?s k) = i div w * w + nat (clampIndex (int w) (int (i mod w) + (int k - int (length kr) div 2)))"
    for k
    using clampIndex_range(1) [of "int w"] w by (simp add: nat_add_distrib nat_mult_distrib)
  have "convolveH (map Fin d) w h (map Fin kr) ! (i div w * w + i mod w) =
        weightedSum (map Fin d) (map Fin kr) ?s"
    using convolveH_cells(2) [OF l y x] by simp
  also have "\<dots> = Fin (\<Sum>k<length kr. d ! nat (?s k) * kr ! k)"
    by (rule weightedSum_Fin) (rule rng)
  finally have "convolveH (map Fin d) w h (map Fin kr) ! i =
      Fin (\<Sum>k<length kr. d ! nat (?s k) * kr ! k)"
    using split by simp
  then show "convolveH (map Fin d) w h (map Fin kr) ! i = map Fin (specConvH d w h kr) ! i"
    using i by (simp only: nat_s specConvH_def nth_map length_map length_upt nth_upt
        diff_zero add_0 map_map comp_def)
qed

lemma convolveV_Fin:
  assumes "length d = w * h"
  shows "convolveV (map Fin d) w h (map Fin kr) = map Fin (specConvV d w h kr)"
proof (rule nth_equalityI)
  have l: "length (map Fin d) = w * h" using assms by simp
  show "length (convolveV (map Fin d) w h (map Fin kr)) = length (map Fin (specConvV d w h kr))"
    using convolveV_cells(1) [OF l] by (simp add: specConvV_def)
  fix i
  assume "i < length (convolveV (map Fin d) w h (map Fin kr))"
  then have i: "i < w * h" using convolveV_cells(1) [OF l] by simp
  then have w: "0 < w" by (cases w) auto
  have x: "i mod w < w" using w by simp
  have y: "i div w < h" using i w by (simp add: less_mult_imp_div_less mult.commute)
  then have h: "0 < h" by simp
  have split: "i = i div w * w + i mod w" by simp
  let ?s = "\<lambda>k. clampIndex (int h) (int (i div w) + (int k - int (length kr) div 2)) * int w + int (i mod w)"
  have rng: "0 \<le> ?s k \<and> ?s k < int (length d)" for k
  proof -
    let ?c = "clampIndex (int h) (int (i div w) + (int k - int (length kr) div 2))"
    have c: "0 \<le> ?c" "?c < int h" using clampIndex_range [of "int h"] h by simp_all
    then have "nat ?c < h" by linarith
    from grid_pos_less [OF x this] have "int (nat ?c * w + i mod w) < int (w * h)"
      by (simp only: of_nat_less_iff)
    moreover have "int (nat ?c * w + i mod w) = ?c * int w + int (i mod w)" using c(1) by simp
    moreover have "0 \<le> ?c * int w" using c(1) by simp
    ultimately show ?thesis using assms by (simp only: add_nonneg_nonneg of_nat_0_le_iff)
  qed
  have nat_s: "nat (?s k) = nat (clampIndex (int h) (int (i div w) + (int k - int (length kr) div 2))) * w + i mod w"
    for k
    using clampIndex_range(1) [of "int h"] h by (simp add: nat_add_distrib nat_mult_distrib)
  have "convolveV (map Fin d) w h (map Fin kr) ! (i div w * w + i mod w) =
        weightedSum (map Fin d) (map Fin kr) ?s"
    using convolveV_cells(2) [OF l y x] by simp
  also have "\<dots> = Fin (\<Sum>k<length kr. d ! nat (?s k) * kr ! k)"
    by (rule weightedSum_Fin) (rule rng)
  finally have "convolveV (map Fin d) w h (map Fin kr) ! i =
      Fin (\<Sum>k<length kr. d ! nat (?s k) * kr ! k)"
    using split by simp
  then show "convolveV (map Fin d) w h (map Fin kr) ! i = map Fin (specConvV d w h kr) ! i"
    using i by (simp only: nat_s specConvV_def nth_map length_map length_upt nth_upt
        diff_zero add_0 map_map comp_def)
qed

lemma specConv_length:
  "length (specConvH d w h kr) = w * h" "length (specConvV d w h kr) = w * h"
  by (simp_all add: specConvH_def specConvV_def)

section \<open>Nonnegativity through the pipeline\<close>




text \<open>The blur of a finite grid under a positive radius, as the sums of the specification.\<close>

lemma smoothGrid_spec:
  assumes "0 < sigma" and "length d = res * res"
  shows "smoothGrid (map Fin d) res sigma =
         Inr (map Fin (specConvV (specConvH d res res (gaussWeights sigma)) res res (gaussWeights sigma)))"
  by (simp add: smoothGrid_def createGaussianKernel_spec [OF assms(1)] convolveH_Fin [OF assms(2)]
        convolveV_Fin specConv_length)



section \<open>The total of the grid under the two passes\<close>

lemma sum_over_grid:
  fixes t :: "nat \<Rightarrow> real"
  shows "(\<Sum>i<w * h. t i) = (\<Sum>y<h. \<Sum>x<w. t (y * w + x))"
proof -
  have "(\<Sum>x<w. t (y * w + x)) = sum t {y * w ..< y * w + w}" for y
    using sum.shift_bounds_nat_ivl [of t 0 "y * w" w] by (simp add: atLeast0LessThan add.commute)
  then have "(\<Sum>y<h. \<Sum>x<w. t (y * w + x)) = (\<Sum>y<h. sum t {y * w ..< y * w + w})" by simp
  also have "\<dots> = sum t {..<h * w}" by (rule sum.nat_group)
  finally show ?thesis by (simp add: mult.commute)
qed

text \<open>
  A line of cells that is zero within \<open>c\<close> cells of both its ends keeps its sum when
  it is read at the clamped positions shifted by at most \<open>c\<close>.
\<close>

lemma clamp_shift_sum:
  fixes f :: "nat \<Rightarrow> real" and n c k :: nat
  assumes k: "k \<le> 2 * c"
    and zero: "\<forall>j<n. \<not> (c \<le> j \<and> j + c < n) \<longrightarrow> f j = 0"
  shows "(\<Sum>x<n. f (nat (clampIndex (int n) (int x + (int k - int c))))) = (\<Sum>x<n. f x)"
proof -
  define s where "s = int k - int c"
  have s: "- int c \<le> s" "s \<le> int c" using k by (simp_all add: s_def)
  define S' where "S' = {x \<in> {..<n}. int x + s < 0 \<or> int n \<le> int x + s}"
  define T' where "T' = {j \<in> {..<n}. int j - s < 0 \<or> int n \<le> int j - s}"
  define jm where "jm = (\<lambda>x. nat (clampIndex (int n) (int x + s)))"
  define im where "im = (\<lambda>j. nat (int j - s))"
  have "(\<Sum>x\<in>{..<n}. f (jm x)) = (\<Sum>j\<in>{..<n}. f j)"
  proof (rule sum.reindex_bij_witness_not_neutral [where S' = S' and T' = T' and i = im and j = jm])
    show "finite S'" "finite T'" by (simp_all add: S'_def T'_def)
    show "im (jm a) = a" if "a \<in> {..<n} - S'" for a
      using that by (auto simp: S'_def jm_def im_def clampIndex_def)
    show "jm a \<in> {..<n} - T'" if "a \<in> {..<n} - S'" for a
      using that by (auto simp: S'_def T'_def jm_def clampIndex_def)
    show "jm (im b) = b" if "b \<in> {..<n} - T'" for b
      using that by (auto simp: T'_def jm_def im_def clampIndex_def)
    show "im b \<in> {..<n} - S'" if "b \<in> {..<n} - T'" for b
      using that by (auto simp: S'_def T'_def im_def)
    show "f (jm a) = 0" if "a \<in> S'" for a
    proof -
      from that have a: "a < n" and out: "int a + s < 0 \<or> int n \<le> int a + s"
        by (auto simp: S'_def)
      have c: "0 < c" using out a s by linarith
      show ?thesis
      proof (cases "int a + s < 0")
        case True
        then have "jm a = 0" by (simp add: jm_def clampIndex_def)
        moreover have "f 0 = 0" using zero a c by auto
        ultimately show ?thesis by simp
      next
        case False
        with out have "int n \<le> int a + s" by simp
        then have "jm a = n - 1" using a by (simp add: jm_def clampIndex_def nat_diff_distrib')
        moreover have "n - 1 < n" "\<not> (c \<le> n - 1 \<and> n - 1 + c < n)" using a c by linarith+
        then have "f (n - 1) = 0" using zero by blast
        ultimately show ?thesis by simp
      qed
    qed
    show "f b = 0" if "b \<in> T'" for b
    proof -
      from that have b: "b < n" and out: "int b - s < 0 \<or> int n \<le> int b - s"
        by (auto simp: T'_def)
      have "\<not> (c \<le> b \<and> b + c < n)" using out s by linarith
      then show ?thesis using zero b by blast
    qed
    show "f (jm a) = f (jm a)" if "a \<in> {..<n}" for a ..
  qed
  then show ?thesis by (simp add: jm_def s_def)
qed
lemma sum_list_nth_lessThan: "sum_list xs = (\<Sum>i<length xs. xs ! i)" for xs :: "real list"
  by (simp add: sum_list_sum_nth atLeast0LessThan)

lemma specConvH_cell:
  assumes "y < h" and "x < w" and "length kr = 2 * c + 1"
  shows "specConvH d w h kr ! (y * w + x) =
         (\<Sum>k<length kr. d ! (y * w + nat (clampIndex (int w) (int x + (int k - int c)))) * kr ! k)"
proof -
  have i: "y * w + x < w * h" using grid_pos_less [OF assms(2,1)] .
  have dm: "(y * w + x) div w = y" "(y * w + x) mod w = x" using assms(2) by simp_all
  have c: "int (length kr) div 2 = int c" using assms(3) by simp
  show ?thesis
    using i by (simp only: specConvH_def nth_map length_upt nth_upt diff_zero add_0 dm c)
qed

lemma specConvV_cell:
  assumes "y < h" and "x < w" and "length kr = 2 * c + 1"
  shows "specConvV d w h kr ! (y * w + x) =
         (\<Sum>k<length kr. d ! (nat (clampIndex (int h) (int y + (int k - int c))) * w + x) * kr ! k)"
proof -
  have i: "y * w + x < w * h" using grid_pos_less [OF assms(2,1)] .
  have dm: "(y * w + x) div w = y" "(y * w + x) mod w = x" using assms(2) by simp_all
  have c: "int (length kr) div 2 = int c" using assms(3) by simp
  show ?thesis
    using i by (simp only: specConvV_def nth_map length_upt nth_upt diff_zero add_0 dm c)
qed

text \<open>
  The horizontal pass keeps the total of a grid whose columns within \<open>c\<close> of the left
  and right borders are zero; the vertical pass does for rows; the weights add up
  to one.
\<close>

lemma specConvH_total:
  assumes len: "length kr = 2 * c + 1" and one: "(\<Sum>k<length kr. kr ! k) = 1"
    and zero: "\<forall>y<h. \<forall>x<w. \<not> (c \<le> x \<and> x + c < w) \<longrightarrow> d ! (y * w + x) = 0"
  shows "sum_list (specConvH d w h kr) = (\<Sum>i<w * h. d ! i)"
proof -
  have row: "(\<Sum>x<w. specConvH d w h kr ! (y * w + x)) = (\<Sum>x<w. d ! (y * w + x))" if y: "y < h" for y
  proof -
    have "(\<Sum>x<w. specConvH d w h kr ! (y * w + x)) =
          (\<Sum>x<w. \<Sum>k<length kr. d ! (y * w + nat (clampIndex (int w) (int x + (int k - int c)))) * kr ! k)"
      by (rule sum.cong) (simp_all add: specConvH_cell [OF y _ len])
    also have "\<dots> = (\<Sum>k<length kr. \<Sum>x<w. d ! (y * w + nat (clampIndex (int w) (int x + (int k - int c)))) * kr ! k)"
      by (rule sum.swap)
    also have "\<dots> = (\<Sum>k<length kr. (\<Sum>x<w. d ! (y * w + x)) * kr ! k)"
    proof (rule sum.cong)
      fix k
      assume "k \<in> {..<length kr}"
      then have k: "k \<le> 2 * c" using len by simp
      have z: "\<forall>j<w. \<not> (c \<le> j \<and> j + c < w) \<longrightarrow> d ! (y * w + j) = 0" using zero y by blast
      have "(\<Sum>x<w. d ! (y * w + nat (clampIndex (int w) (int x + (int k - int c))))) = (\<Sum>x<w. d ! (y * w + x))"
        using clamp_shift_sum [of k c w "\<lambda>j. d ! (y * w + j)", OF k z] .
      then show "(\<Sum>x<w. d ! (y * w + nat (clampIndex (int w) (int x + (int k - int c)))) * kr ! k) =
                 (\<Sum>x<w. d ! (y * w + x)) * kr ! k"
        by (simp add: sum_distrib_right [symmetric])
    qed simp
    also have "\<dots> = (\<Sum>x<w. d ! (y * w + x)) * (\<Sum>k<length kr. kr ! k)"
      by (simp add: sum_distrib_left)
    finally show ?thesis by (simp add: one)
  qed
  have "sum_list (specConvH d w h kr) = (\<Sum>i<w * h. specConvH d w h kr ! i)"
    by (simp add: sum_list_nth_lessThan specConv_length)
  also have "\<dots> = (\<Sum>y<h. \<Sum>x<w. specConvH d w h kr ! (y * w + x))" by (rule sum_over_grid)
  also have "\<dots> = (\<Sum>y<h. \<Sum>x<w. d ! (y * w + x))" by (rule sum.cong) (simp_all add: row)
  also have "\<dots> = (\<Sum>i<w * h. d ! i)" by (rule sum_over_grid [symmetric])
  finally show ?thesis .
qed

lemma specConvV_total:
  assumes len: "length kr = 2 * c + 1" and one: "(\<Sum>k<length kr. kr ! k) = 1"
    and zero: "\<forall>y<h. \<forall>x<w. \<not> (c \<le> y \<and> y + c < h) \<longrightarrow> d ! (y * w + x) = 0"
  shows "sum_list (specConvV d w h kr) = (\<Sum>i<w * h. d ! i)"
proof -
  have col: "(\<Sum>y<h. specConvV d w h kr ! (y * w + x)) = (\<Sum>y<h. d ! (y * w + x))" if x: "x < w" for x
  proof -
    have "(\<Sum>y<h. specConvV d w h kr ! (y * w + x)) =
          (\<Sum>y<h. \<Sum>k<length kr. d ! (nat (clampIndex (int h) (int y + (int k - int c))) * w + x) * kr ! k)"
      by (rule sum.cong) (simp_all add: specConvV_cell [OF _ x len])
    also have "\<dots> = (\<Sum>k<length kr. \<Sum>y<h. d ! (nat (clampIndex (int h) (int y + (int k - int c))) * w + x) * kr ! k)"
      by (rule sum.swap)
    also have "\<dots> = (\<Sum>k<length kr. (\<Sum>y<h. d ! (y * w + x)) * kr ! k)"
    proof (rule sum.cong)
      fix k
      assume "k \<in> {..<length kr}"
      then have k: "k \<le> 2 * c" using len by simp
      have z: "\<forall>j<h. \<not> (c \<le> j \<and> j + c < h) \<longrightarrow> d ! (j * w + x) = 0" using zero x by blast
      have "(\<Sum>y<h. d ! (nat (clampIndex (int h) (int y + (int k - int c))) * w + x)) = (\<Sum>y<h. d ! (y * w + x))"
        using clamp_shift_sum [of k c h "\<lambda>j. d ! (j * w + x)", OF k z] .
      then show "(\<Sum>y<h. d ! (nat (clampIndex (int h) (int y + (int k - int c))) * w + x) * kr ! k) =
                 (\<Sum>y<h. d ! (y * w + x)) * kr ! k"
        by (simp add: sum_distrib_right [symmetric])
    qed simp
    also have "\<dots> = (\<Sum>y<h. d ! (y * w + x)) * (\<Sum>k<length kr. kr ! k)"
      by (simp add: sum_distrib_left)
    finally show ?thesis by (simp add: one)
  qed
  have "sum_list (specConvV d w h kr) = (\<Sum>i<w * h. specConvV d w h kr ! i)"
    by (simp add: sum_list_nth_lessThan specConv_length)
  also have "\<dots> = (\<Sum>y<h. \<Sum>x<w. specConvV d w h kr ! (y * w + x))" by (rule sum_over_grid)
  also have "\<dots> = (\<Sum>x<w. \<Sum>y<h. specConvV d w h kr ! (y * w + x))" by (rule sum.swap)
  also have "\<dots> = (\<Sum>x<w. \<Sum>y<h. d ! (y * w + x))" by (rule sum.cong) (simp_all add: col)
  also have "\<dots> = (\<Sum>y<h. \<Sum>x<w. d ! (y * w + x))" by (rule sum.swap)
  also have "\<dots> = (\<Sum>i<w * h. d ! i)" by (rule sum_over_grid [symmetric])
  finally show ?thesis .
qed

lemma specConvH_zero_row:
  assumes "y < h" and "x < w" and "length kr = 2 * c + 1" and "\<forall>j<w. d ! (y * w + j) = 0"
  shows "specConvH d w h kr ! (y * w + x) = 0"
proof -
  have "d ! (y * w + nat (clampIndex (int w) (int x + (int k - int c)))) = 0" for k
  proof -
    have "nat (clampIndex (int w) (int x + (int k - int c))) < w"
      using clampIndex_range [of "int w" "int x + (int k - int c)"] assms(2) by linarith
    then show ?thesis using assms(4) by blast
  qed
  then show ?thesis by (simp add: specConvH_cell [OF assms(1-3)])
qed

text \<open>
  A point in the corner of a grid of side 3 under the radius 1: the total after the
  two passes, in the weights of the kernel.
\<close>

lemma sum7: "(\<Sum>k<7. f k) = f 0 + f 1 + f 2 + f 3 + f 4 + f 5 + (f 6 :: real)" for f :: "nat \<Rightarrow> real"
proof -
  have "{..<7::nat} = {0, 1, 2, 3, 4, 5, 6}" by auto
  then show ?thesis by simp
qed

lemma upt9: "[0..<9] = [0, 1, 2, 3, 4, 5, 6, 7, 8]"
  by (simp add: upt_rec)

lemma convH_corner:
  "specConvH [1, 0, 0, 0, 0, 0, 0, 0, 0] 3 3 [a0, a1, a2, a3, a4, a5, a6] =
     [a0 + a1 + a2 + a3, a0 + a1 + a2, a0 + a1, 0, 0, 0, 0, 0, 0]"
  by (simp add: specConvH_def upt9 sum7 clampIndex_def)

lemma convV_corner:
  "specConvV [b0, b1, b2, 0, 0, 0, 0, 0, 0] 3 3 [a0, a1, a2, a3, a4, a5, a6] =
     [b0 * (a0 + a1 + a2 + a3), b1 * (a0 + a1 + a2 + a3), b2 * (a0 + a1 + a2 + a3),
      b0 * (a0 + a1 + a2), b1 * (a0 + a1 + a2), b2 * (a0 + a1 + a2),
      b0 * (a0 + a1), b1 * (a0 + a1), b2 * (a0 + a1)]"
  by (simp add: specConvV_def upt9 sum7 clampIndex_def algebra_simps)

lemma upt7: "[0..<7] = [0, 1, 2, 3, 4, 5, 6]"
  by (simp add: upt_rec)

lemma gw1: "gaussWeights 1 =
   (let S = exp (- (9 / 2)) + exp (- 2) + exp (- (1 / 2)) + 1 + exp (- (1 / 2)) + exp (- 2) + exp (- (9 / 2))
    in [exp (- (9 / 2)) / S, exp (- 2) / S, exp (- (1 / 2)) / S, 1 / S,
        exp (- (1 / 2)) / S, exp (- 2) / S, exp (- (9 / 2)) / S])"
proof -
  have h: "nat \<lceil>3 * (1::real)\<rceil> = 3" by simp
  have u: "[0..<2 * 3 + 1] = [0, 1, 2, 3, 4, 5, 6]" by (simp add: upt_rec)
  show ?thesis
    unfolding gaussWeights_def Let_def h u by (simp add: power2_eq_square)
qed

lemma exp_minus_two_ge: "1 / 9 \<le> exp (- 2 :: real)"
proof -
  have "exp (2::real) = exp 1 * exp 1" by (simp add: exp_add [symmetric])
  also have "\<dots> \<le> 3 * 3" by (intro mult_mono exp_le) simp_all
  finally have "exp (2::real) \<le> 9" by simp
  then have "1 / 9 \<le> 1 / exp (2::real)" by (simp add: field_simps)
  then show ?thesis by (simp add: exp_minus inverse_eq_divide)
qed

lemma corner_total_weights:
  "sum_list (specConvV (specConvH [1, 0, 0, 0, 0, 0, 0, 0, 0] 3 3 [a0, a1, a2, a3, a4, a5, a6]) 3 3
      [a0, a1, a2, a3, a4, a5, a6]) = (3 * a0 + 3 * a1 + 2 * a2 + a3) * (3 * a0 + 3 * a1 + 2 * a2 + a3)"
  unfolding convH_corner convV_corner by (simp add: algebra_simps)

lemma corner_total:
  "64 / 63 < sum_list (specConvV (specConvH [1, 0, 0, 0, 0, 0, 0, 0, 0] 3 3 (gaussWeights 1)) 3 3 (gaussWeights 1))"
proof -
  define E4 E2 E1 :: real where "E4 = exp (- (9 / 2))" and "E2 = exp (- 2)" and "E1 = exp (- (1 / 2))"
  define S where "S = E4 + E2 + E1 + 1 + E1 + E2 + E4"
  have pos: "0 < E4" "0 < E1" and le1: "E4 \<le> 1" "E2 \<le> 1" "E1 \<le> 1" and e2: "1 / 9 \<le> E2"
    unfolding E4_def E2_def E1_def using exp_minus_two_ge by simp_all
  have S: "0 < S" "S \<le> 7" unfolding S_def using pos le1 e2 by linarith+
  have gw: "gaussWeights 1 = [E4 / S, E2 / S, E1 / S, 1 / S, E1 / S, E2 / S, E4 / S]"
    unfolding gw1 Let_def S_def E4_def E2_def E1_def ..
  let ?F = "3 * (E4 / S) + 3 * (E2 / S) + 2 * (E1 / S) + 1 / S"
  have tot: "sum_list (specConvV (specConvH [1, 0, 0, 0, 0, 0, 0, 0, 0] 3 3 (gaussWeights 1)) 3 3 (gaussWeights 1))
        = ?F * ?F"
    unfolding gw by (rule corner_total_weights)
  have "?F = (S + (E4 + E2)) / S" by (simp add: S_def add_divide_distrib)
  then have F1: "?F = 1 + (E4 / S + E2 / S)" using S(1) by (simp add: add_divide_distrib)
  have v: "1 / 63 \<le> E2 / S"
  proof -
    have "1 / 63 = (1 / 9) / (7::real)" by simp
    also have "\<dots> \<le> E2 / S" using e2 S by (intro frac_le) simp_all
    finally show ?thesis .
  qed
  have u: "0 < E4 / S" using pos(1) S(1) by simp
  have "64 / 63 < 1 + (E4 / S + E2 / S)" using u v by linarith
  then have F: "64 / 63 < ?F" by (simp only: F1)
  define Fv where "Fv = ?F"
  have Fv: "64 / 63 < Fv" using F by (simp only: Fv_def)
  then have "Fv * 1 < Fv * Fv" by (intro mult_strict_left_mono) simp_all
  then have "Fv < Fv * Fv" by (simp only: mult_1_right)
  with Fv have "64 / 63 < Fv * Fv" by linarith
  then show ?thesis unfolding tot Fv_def .
qed
lemma gridTotal_Fin: "gridTotal (map Fin d) = Fin (sum_list d)"
proof -
  have "fold (\<lambda>v total. js_add total v) (map Fin d) (Fin t) = Fin (t + sum_list d)" for t
    by (induction d arbitrary: t) (simp_all add: add.assoc)
  from this [of 0] show ?thesis by (simp add: gridTotal_def)
qed

text \<open>
  Claim C3 as stated fails on a point in the corner of a grid of side 3 under the
  radius 1: the clamped reads count the corner cell again for every position
  beyond the border, and the total grows from 1 to more than 64/63.
\<close>

theorem smoothing_changes_total:
  "gridTotal [Fin 1, Fin 0, Fin 0, Fin 0, Fin 0, Fin 0, Fin 0, Fin 0, Fin 0] = Fin 1
 \<and> \<not> isl (smoothGrid [Fin 1, Fin 0, Fin 0, Fin 0, Fin 0, Fin 0, Fin 0, Fin 0, Fin 0] 3 1)
 \<and> js_lt (Fin (64 / 63))
       (gridTotal (projr (smoothGrid [Fin 1, Fin 0, Fin 0, Fin 0, Fin 0, Fin 0, Fin 0, Fin 0, Fin 0] 3 1)))"
proof -
  have g: "[Fin 1, Fin 0, Fin 0, Fin 0, Fin 0, Fin 0, Fin 0, Fin 0, Fin 0] =
           map Fin [1, 0, 0, 0, 0, 0, 0, 0, 0]"
    by simp
  have s: "smoothGrid (map Fin [1, 0, 0, 0, 0, 0, 0, 0, 0]) 3 1 =
      Inr (map Fin (specConvV (specConvH [1, 0, 0, 0, 0, 0, 0, 0, 0] 3 3 (gaussWeights 1)) 3 3
                      (gaussWeights 1)))"
    by (rule smoothGrid_spec) simp_all
  have a: "gridTotal [Fin 1, Fin 0, Fin 0, Fin 0, Fin 0, Fin 0, Fin 0, Fin 0, Fin 0] = Fin 1"
    by (simp add: gridTotal_def)
  have b: "js_lt (Fin (64 / 63))
       (gridTotal (map Fin (specConvV (specConvH [1, 0, 0, 0, 0, 0, 0, 0, 0] 3 3 (gaussWeights 1)) 3 3
                      (gaussWeights 1))))"
    unfolding gridTotal_Fin using corner_total by simp
  show ?thesis
    unfolding g s using a b by (simp add: g [symmetric] del: list.map)
qed

text \<open>
  Claim C3, amended. In exact arithmetic, for a positive radius the kernel has
  \<open>2 * ceil (3 * sigma) + 1\<close> weights that add up to 1, and the horizontal pass
  followed by the vertical pass keeps the total of a grid exactly when every cell
  that is not zero lies at least \<open>ceil (3 * sigma)\<close> cells away from each of the four
  borders. Nearer to a border the clamped reads change the total.
\<close>

theorem smoothing_keeps_interior_total:
  assumes "0 < sigma" and "length d = w * h"
    and "\<forall>y<h. \<forall>x<w. d ! (y * w + x) \<noteq> 0 \<longrightarrow>
           nat \<lceil>3 * sigma\<rceil> \<le> x \<and> x + nat \<lceil>3 * sigma\<rceil> < w
         \<and> nat \<lceil>3 * sigma\<rceil> \<le> y \<and> y + nat \<lceil>3 * sigma\<rceil> < h"
  shows "createGaussianKernel sigma = Inr (map Fin (gaussWeights sigma))
       \<and> length (gaussWeights sigma) = 2 * nat \<lceil>3 * sigma\<rceil> + 1
       \<and> sum_list (gaussWeights sigma) = 1
       \<and> gridTotal (convolveV (convolveH (map Fin d) w h (map Fin (gaussWeights sigma))) w h
                      (map Fin (gaussWeights sigma)))
           = gridTotal (map Fin d)
       \<and> gridTotal (map Fin d) = Fin (sum_list d)"
proof -
  let ?kr = "gaussWeights sigma"
  let ?c = "nat \<lceil>3 * sigma\<rceil>"
  let ?H = "specConvH d w h ?kr"
  have len: "length ?kr = 2 * ?c + 1" by (rule gaussWeights_length)
  have one: "(\<Sum>k<length ?kr. ?kr ! k) = 1"
    using gaussWeights_sum [of sigma] by (simp add: sum_list_nth_lessThan)
  have zeroH: "\<forall>y<h. \<forall>x<w. \<not> (?c \<le> x \<and> x + ?c < w) \<longrightarrow> d ! (y * w + x) = 0"
    using assms(3) by blast
  have totH: "sum_list ?H = sum_list d"
    using specConvH_total [OF len one zeroH] assms(2) by (simp add: sum_list_nth_lessThan)
  have zeroV: "\<forall>y<h. \<forall>x<w. \<not> (?c \<le> y \<and> y + ?c < h) \<longrightarrow> ?H ! (y * w + x) = 0"
  proof (intro allI impI)
    fix y x
    assume y: "y < h" and x: "x < w" and out: "\<not> (?c \<le> y \<and> y + ?c < h)"
    have "\<forall>j<w. d ! (y * w + j) = 0" using assms(3) y out by blast
    then show "?H ! (y * w + x) = 0" by (rule specConvH_zero_row [OF y x len])
  qed
  have lH: "length ?H = w * h" by (rule specConv_length)
  have totV: "sum_list (specConvV ?H w h ?kr) = sum_list ?H"
    using specConvV_total [OF len one zeroV] lH by (simp add: sum_list_nth_lessThan)
  have conv: "convolveV (convolveH (map Fin d) w h (map Fin ?kr)) w h (map Fin ?kr) =
              map Fin (specConvV ?H w h ?kr)"
    by (simp only: convolveH_Fin [OF assms(2)] convolveV_Fin [OF lH])
  show ?thesis
    using createGaussianKernel_spec [OF assms(1)] len gaussWeights_sum [of sigma]
    by (simp only: conv gridTotal_Fin totV totH simp_thms)
qed

theorem smoothing_keeps_interior_total_witness:
  "createGaussianKernel (1 / 3) = Inr (map Fin (gaussWeights (1 / 3)))
 \<and> length (gaussWeights (1 / 3)) = 3
 \<and> gridTotal (convolveV (convolveH (map Fin [0, 0, 0, 0, 5, 0, 0, 0, 0]) 3 3
                            (map Fin (gaussWeights (1 / 3)))) 3 3
                 (map Fin (gaussWeights (1 / 3))))
     = Fin 5"
proof -
  have c: "nat \<lceil>3 * (1 / 3 :: real)\<rceil> = 1" by simp
  have lt3: "n < 3 \<longleftrightarrow> n = 0 \<or> n = 1 \<or> n = 2" for n :: nat by auto
  have support: "\<forall>y<3. \<forall>x<3. [0, 0, 0, 0, 5, 0, 0, 0, 0 :: real] ! (y * 3 + x) \<noteq> 0 \<longrightarrow>
           nat \<lceil>3 * (1 / 3 :: real)\<rceil> \<le> x \<and> x + nat \<lceil>3 * (1 / 3 :: real)\<rceil> < 3
         \<and> nat \<lceil>3 * (1 / 3 :: real)\<rceil> \<le> y \<and> y + nat \<lceil>3 * (1 / 3 :: real)\<rceil> < 3"
    unfolding c by (auto simp: lt3)
  have "(0::real) < 1 / 3" by simp
  from smoothing_keeps_interior_total [OF this _ support] show ?thesis
    by (simp add: c)
qed

section \<open>A layer of one cell under the threshold ratio 1\<close>

lemma clampIndex_one: "clampIndex 1 p = 0"
  by (simp add: clampIndex_def)

lemma specConv_one_cell:
  "specConvH [v] 1 1 kr = [v * (\<Sum>k<length kr. kr ! k)]"
  "specConvV [v] 1 1 kr = [v * (\<Sum>k<length kr. kr ! k)]"
  by (simp_all add: specConvH_def specConvV_def clampIndex_one sum_distrib_left)

lemma specConv_one_cell_Suc:
  "specConvH [v] (Suc 0) (Suc 0) kr = [v * (\<Sum>k<length kr. kr ! k)]"
  "specConvV [v] (Suc 0) (Suc 0) kr = [v * (\<Sum>k<length kr. kr ! k)]"
  using specConv_one_cell [of v kr] by simp_all

lemma smoothGrid_one_cell:
  assumes "0 < sigma"
  shows "smoothGrid [Fin v] 1 sigma = Inr [Fin v]"
proof -
  have one: "(\<Sum>k<length (gaussWeights sigma). gaussWeights sigma ! k) = 1"
    using gaussWeights_sum [of sigma] by (simp add: sum_list_nth_lessThan)
  have "smoothGrid (map Fin [v]) 1 sigma =
        Inr (map Fin (specConvV (specConvH [v] 1 1 (gaussWeights sigma)) 1 1 (gaussWeights sigma)))"
    by (rule smoothGrid_spec [OF assms]) simp
  then show ?thesis by (simp add: specConv_one_cell_Suc one)
qed

text \<open>
  Claim C6, at an input where the code departs from it: one point, a grid of one
  cell and the threshold ratio 1. The cell holds the saturation reference, which
  is also the cut-off, so the quotient of the normalisation is 0 / 0; no branch
  replaces it, both clamps are false on \<^verbatim>\<open>NaN\<close>, and the only pixel of the layer is
  stored with alpha 0 instead of the alpha 77 of a normalised density of 0.
\<close>

theorem zero_width_range_is_transparent:
  "generateHeatmapLayer [\<lparr>gps_latitude = 0, gps_longitude = 0, carrier = str ''A''\<rparr>]
     (computeBounds [\<lparr>gps_latitude = 0, gps_longitude = 0, carrier = str ''A''\<rparr>])
     (str ''#D40000'') \<lparr>gridRes = 1, radius = 1, thresholdRatio = 1\<rparr>
   = Inr [0, 0, 0, 0]"
proof -
  let ?p = "\<lparr>gps_latitude = 0, gps_longitude = 0, carrier = str ''A''\<rparr>"
  have b: "computeBounds [?p] = \<lparr>xmin = Fin 0, xmax = Fin 0, ymin = Fin 0, ymax = Fin 0\<rparr>"
    by (simp add: computeBounds_def boundsStep_def js_gt_def js_sub_def Let_def)
  have g: "accumulateDensity [?p] \<lparr>xmin = Fin 0, xmax = Fin 0, ymin = Fin 0, ymax = Fin 0\<rparr> 1 = [Fin 1]"
    by code_simp
  have s: "smoothGrid [Fin 1] 1 1 = Inr [Fin 1]"
    by (rule smoothGrid_one_cell) simp
  have m: "percentileMax [Fin 1] = Fin 1" by code_simp
  have n: "normOf (Fin 1) (Fin 1) (Fin 1) = NaN" by code_simp
  have e: "encodePixels [Fin 1] 1 (Fin 1) (Fin 1) (hexToRgb (str ''#D40000'')) = [0, 0, 0, 0]"
    by code_simp
  have c: "cutOffOf (Fin 1) 1 = Fin 1" by code_simp
  show ?thesis
    unfolding generateHeatmapLayer_def b ProcessingConfig.simps g
    using s e by (simp add: m c Let_def)
qed

end
